theory Spec2Isabelle
  imports Main "HOL-Library.Word" "HOL-Library.Sublist"
begin

section \<open>JavaScript strings\<close>

text \<open>
  A JavaScript string is a finite sequence of UTF-16 code units.  The functions of
  \<^verbatim>\<open>voice-app/lib/sip-handler.js\<close> work on code units throughout (no regular
  expression carries the \<^verbatim>\<open>u\<close> flag), so a string is a list of 16-bit words.
  \<open>js\<close> writes the ASCII literals of the source.
\<close>

type_synonym jsstring = "16 word list"

definition js :: "string \<Rightarrow> jsstring" where
  "js s = map (\<lambda>c. of_nat (of_char c)) s"

definition CRLF :: jsstring where
  "CRLF = [0x0D, 0x0A]"

text \<open>\<^verbatim>\<open>s.startsWith(p)\<close>, \<^verbatim>\<open>s.endsWith(p)\<close>, \<^verbatim>\<open>s.includes(p)\<close>.\<close>

definition startsWith :: "jsstring \<Rightarrow> jsstring \<Rightarrow> bool" where
  "startsWith s p = prefix p s"

definition endsWith :: "jsstring \<Rightarrow> jsstring \<Rightarrow> bool" where
  "endsWith s p = suffix p s"

fun includesStr :: "jsstring \<Rightarrow> jsstring \<Rightarrow> bool" where
  "includesStr [] p = (p = [])"
| "includesStr (c # cs) p = (prefix p (c # cs) \<or> includesStr cs p)"

text \<open>
  \<^verbatim>\<open>s.split(sep)\<close> for a string separator: the pieces between the leftmost,
  non-overlapping occurrences of \<open>sep\<close>; never an empty array for a non-empty separator.
  With the empty separator JavaScript returns the code units one by one.
\<close>

definition consFirst :: "16 word \<Rightarrow> jsstring list \<Rightarrow> jsstring list" where
  "consFirst c ps = (case ps of [] \<Rightarrow> [[c]] | w # ws \<Rightarrow> (c # w) # ws)"

function splitAt :: "jsstring \<Rightarrow> jsstring \<Rightarrow> jsstring list" where
  "splitAt sep [] = [[]]"
| "splitAt sep (c # cs) =
     (if sep \<noteq> [] \<and> prefix sep (c # cs)
      then [] # splitAt sep (drop (length sep) (c # cs))
      else consFirst c (splitAt sep cs))"
  by pat_completeness auto
termination
  by (relation "measure (\<lambda>(sep, s). length s)") auto

definition split :: "jsstring \<Rightarrow> jsstring \<Rightarrow> jsstring list" where
  "split s sep = (if sep = [] then map (\<lambda>c. [c]) s else splitAt sep s)"

text \<open>\<^verbatim>\<open>xs.join(sep)\<close>.\<close>

fun join :: "jsstring list \<Rightarrow> jsstring \<Rightarrow> jsstring" where
  "join [] sep = []"
| "join [x] sep = x"
| "join (x # y # ys) sep = x @ sep @ join (y # ys) sep"

section \<open>The SDP sanitizer: \<^verbatim>\<open>stripVideoFromSdp\<close>\<close>

text \<open>
  The argument is the body of the INVITE: a string, \<^verbatim>\<open>null\<close> or
  \<^verbatim>\<open>undefined\<close>.  Of these \<^verbatim>\<open>null\<close>, \<^verbatim>\<open>undefined\<close> and the empty
  string are falsy.
\<close>

datatype sdp = Undefined | Null | Str jsstring

fun falsy :: "sdp \<Rightarrow> bool" where
  "falsy Undefined = True"
| "falsy Null = True"
| "falsy (Str s) = (s = [])"

text \<open>
  The \<^verbatim>\<open>for (const line of lines)\<close> loop with its flag \<^verbatim>\<open>inVideoSection\<close>;
  the result is the list of lines pushed to \<^verbatim>\<open>result\<close>, in order.
\<close>

fun stripLoop :: "bool \<Rightarrow> jsstring list \<Rightarrow> jsstring list" where
  "stripLoop inVideoSection [] = []"
| "stripLoop inVideoSection (line # lines) =
     (if startsWith line (js ''m=video'') then stripLoop True lines
      else
        let inVideoSection' =
          (if startsWith line (js ''m='') \<and> \<not> startsWith line (js ''m=video'')
           then False else inVideoSection)
        in if inVideoSection' then stripLoop inVideoSection' lines
           else line # stripLoop inVideoSection' lines)"

fun stripVideoFromSdp :: "sdp \<Rightarrow> sdp" where
  "stripVideoFromSdp Undefined = Undefined"
| "stripVideoFromSdp Null = Null"
| "stripVideoFromSdp (Str s) =
     (if s = [] then Str s
      else Str (join (stripLoop False (split s CRLF)) CRLF))"

text \<open>
  The specification's reading of the sanitizer, for comparison.  A line belongs to a
  video section when the nearest media header (a line starting with \<^verbatim>\<open>m=\<close>) at or
  above it is a video header.
\<close>

definition inVideoSectionSpec :: "jsstring list \<Rightarrow> nat \<Rightarrow> bool" where
  "inVideoSectionSpec ls i =
     (case filter (\<lambda>l. startsWith l (js ''m='')) (rev (take (Suc i) ls)) of
        [] \<Rightarrow> False
      | h # _ \<Rightarrow> startsWith h (js ''m=video''))"

definition keptLinesSpec :: "jsstring list \<Rightarrow> jsstring list" where
  "keptLinesSpec ls =
     map (\<lambda>i. ls ! i) (filter (\<lambda>i. \<not> inVideoSectionSpec ls i) [0..<length ls])"

text \<open>
  The specification's byte-level reading: the input is a sequence of records, each with
  its CRLF terminator (the last one possibly unterminated); the records of a video
  section are deleted with their terminators and every other byte stays.
\<close>

fun terminated :: "jsstring list \<Rightarrow> jsstring list" where
  "terminated [] = []"
| "terminated [x] = (if x = [] then [] else [x])"
| "terminated (x # y # ys) = (x @ CRLF) # terminated (y # ys)"

definition stripVideoSpec :: "jsstring \<Rightarrow> jsstring" where
  "stripVideoSpec s = concat (keptLinesSpec (terminated (split s CRLF)))"


section \<open>Character classes, \<^verbatim>\<open>trim\<close>, \<^verbatim>\<open>toLowerCase\<close>\<close>

text \<open>
  The class \<^verbatim>\<open>\s\<close> of a regular expression and the characters \<^verbatim>\<open>trim()\<close>
  removes are the same set: ECMAScript's WhiteSpace and LineTerminator code points.
  The dot of a regular expression matches everything but a LineTerminator.
\<close>

definition isLineTerminator :: "16 word \<Rightarrow> bool" where
  "isLineTerminator c = (c = 0x0A \<or> c = 0x0D \<or> c = 0x2028 \<or> c = 0x2029)"

definition isWhiteSpace :: "16 word \<Rightarrow> bool" where
  "isWhiteSpace c =
     (c = 0x09 \<or> c = 0x0B \<or> c = 0x0C \<or> c = 0x20 \<or> c = 0xA0 \<or> c = 0x1680
      \<or> (0x2000 \<le> c \<and> c \<le> 0x200A) \<or> c = 0x202F \<or> c = 0x205F \<or> c = 0x3000
      \<or> c = 0xFEFF \<or> isLineTerminator c)"

definition trim :: "jsstring \<Rightarrow> jsstring" where
  "trim s = rev (dropWhile isWhiteSpace (rev (dropWhile isWhiteSpace s)))"

text \<open>
  \<^verbatim>\<open>toLowerCase()\<close> on Basic Latin and the Latin-1 Supplement, where it maps one
  code unit to one code unit.  The Unicode case table above U+00FF is not part of this
  model: such code units are left as they are.
\<close>

definition toLowerCaseUnit :: "16 word \<Rightarrow> 16 word" where
  "toLowerCaseUnit c =
     (if (0x41 \<le> c \<and> c \<le> 0x5A) \<or> (0xC0 \<le> c \<and> c \<le> 0xDE \<and> c \<noteq> 0xD7)
      then c + 0x20 else c)"

definition toLowerCase :: "jsstring \<Rightarrow> jsstring" where
  "toLowerCase s = map toLowerCaseUnit s"

section \<open>Goodbye detection: \<^verbatim>\<open>isGoodbye\<close>\<close>

definition goodbyePhrases :: "jsstring list" where
  "goodbyePhrases =
     [js ''goodbye'', js ''good bye'', js ''bye'', js ''hang up'', js ''end call'',
      js ''that's all'', js ''thats all'']"

definition isGoodbye :: "jsstring \<Rightarrow> bool" where
  "isGoodbye transcript =
     (let lower = trim (toLowerCase transcript)
      in list_ex (\<lambda>phrase.
            lower = phrase \<or> includesStr lower (js '' '' @ phrase) \<or>
            startsWith lower (phrase @ js '' '') \<or> endsWith lower (js '' '' @ phrase))
          goodbyePhrases)"

text \<open>
  The specification's reading of a goodbye: a phrase that stands in the lowered, trimmed
  transcript as a separated word or clause, with the start of the text or a space before
  it and the end of the text or a space after it.
\<close>

definition separatedPhraseSpec :: "jsstring \<Rightarrow> jsstring \<Rightarrow> bool" where
  "separatedPhraseSpec lower phrase =
     list_ex (\<lambda>i.
        take (length phrase) (drop i lower) = phrase \<and>
        (i = 0 \<or> lower ! (i - 1) = 0x20) \<and>
        (i + length phrase = length lower \<or> lower ! (i + length phrase) = 0x20))
      [0..<Suc (length lower - length phrase)]"

definition isGoodbyeSpec :: "jsstring \<Rightarrow> bool" where
  "isGoodbyeSpec transcript =
     list_ex (separatedPhraseSpec (trim (toLowerCase transcript))) goodbyePhrases"

section \<open>Voice-line extraction: \<^verbatim>\<open>extractVoiceLine\<close>\<close>

subsection \<open>The regular expressions\<close>

text \<open>
  Every pattern has the flags \<^verbatim>\<open>im\<close>.  A literal code unit of these patterns is
  an ASCII character or a code unit without case (the surrogates of the two emoji and
  the variation selector U+FE0F); for such a pattern character the case-insensitive
  comparison of ECMAScript (without the \<^verbatim>\<open>u\<close> flag) is equality up to ASCII case.
\<close>

definition canon :: "16 word \<Rightarrow> 16 word" where
  "canon c = (if 0x61 \<le> c \<and> c \<le> 0x7A then c - 0x20 else c)"

text \<open>A literal, matched at the start of the input: the rest of the input after it.\<close>

fun literal :: "jsstring \<Rightarrow> jsstring \<Rightarrow> jsstring option" where
  "literal [] s = Some s"
| "literal (p # ps) [] = None"
| "literal (p # ps) (c # cs) = (if canon p = canon c then literal ps cs else None)"

text \<open>
  \<^verbatim>\<open>\s*\<close> and \<^verbatim>\<open>\s+\<close> in front of a literal that starts with a non-blank
  character: the whole run of blanks is consumed, since any shorter choice leaves a
  blank where the literal must start.
\<close>

definition blanks :: "jsstring \<Rightarrow> jsstring" where
  "blanks s = dropWhile isWhiteSpace s"

definition blanks1 :: "jsstring \<Rightarrow> jsstring option" where
  "blanks1 s =
     (case s of [] \<Rightarrow> None
      | c # cs \<Rightarrow> if isWhiteSpace c then Some (dropWhile isWhiteSpace cs) else None)"

text \<open>
  \<^verbatim>\<open>\s*([^\n]+)\<close> at the start of the input, with its backtracking: the greedy
  \<^verbatim>\<open>\s*\<close> takes a blank and the rest is tried; when that fails the group starts
  at this blank, if it is not a newline.  The result is group 1.
\<close>

fun restOfLine :: "jsstring \<Rightarrow> jsstring option" where
  "restOfLine [] = None"
| "restOfLine (c # cs) =
     (if isWhiteSpace c
      then (case restOfLine cs of
              Some g \<Rightarrow> Some g
            | None \<Rightarrow> if c \<noteq> 0x0A then Some (takeWhile (\<lambda>d. d \<noteq> 0x0A) (c # cs)) else None)
      else Some (takeWhile (\<lambda>d. d \<noteq> 0x0A) (c # cs)))"

text \<open>
  \<^verbatim>\<open>\s*(.+?)(?:\n|$)\<close> at the start of the input.  The lazy group takes
  characters other than line terminators and stops at the first place where a newline
  follows or \<^verbatim>\<open>$\<close> holds (the end of the input or, with the flag \<^verbatim>\<open>m\<close>, a
  line terminator ahead): that is the end of the run of such characters.
\<close>

fun lazyLine :: "jsstring \<Rightarrow> jsstring option" where
  "lazyLine [] = None"
| "lazyLine (c # cs) =
     (if isWhiteSpace c
      then (case lazyLine cs of
              Some g \<Rightarrow> Some g
            | None \<Rightarrow> if \<not> isLineTerminator c
                      then Some (takeWhile (\<lambda>d. \<not> isLineTerminator d) (c # cs)) else None)
      else Some (takeWhile (\<lambda>d. \<not> isLineTerminator d) (c # cs)))"

text \<open>\<^verbatim>\<open>s.match(re)\<close>: the match at the leftmost position where one exists.\<close>

fun search :: "(jsstring \<Rightarrow> 'a option) \<Rightarrow> jsstring \<Rightarrow> 'a option" where
  "search m [] = m []"
| "search m (c # cs) = (case m (c # cs) of Some g \<Rightarrow> Some g | None \<Rightarrow> search m cs)"

definition speakingHead :: jsstring where
  "speakingHead = [0xD83D, 0xDDE3, 0xFE0F]"

definition targetEmoji :: jsstring where
  "targetEmoji = [0xD83C, 0xDFAF]"

definition voiceResponseAt :: "jsstring \<Rightarrow> jsstring option" where
  "voiceResponseAt s =
     (case literal speakingHead s of None \<Rightarrow> None
      | Some s1 \<Rightarrow>
         (case literal (js ''VOICE_RESPONSE:'') (blanks s1) of None \<Rightarrow> None
          | Some s2 \<Rightarrow> restOfLine s2))"

definition customCompletedAt :: "jsstring \<Rightarrow> jsstring option" where
  "customCompletedAt s =
     (case literal speakingHead s of None \<Rightarrow> None
      | Some s1 \<Rightarrow>
         (case literal (js ''CUSTOM'') (blanks s1) of None \<Rightarrow> None
          | Some s2 \<Rightarrow>
             (case blanks1 s2 of None \<Rightarrow> None
              | Some s3 \<Rightarrow>
                 (case literal (js ''COMPLETED:'') s3 of None \<Rightarrow> None
                  | Some s4 \<Rightarrow> lazyLine s4))))"

definition completedAt :: "jsstring \<Rightarrow> jsstring option" where
  "completedAt s =
     (case literal targetEmoji s of None \<Rightarrow> None
      | Some s1 \<Rightarrow>
         (case literal (js ''COMPLETED:'') (blanks s1) of None \<Rightarrow> None
          | Some s2 \<Rightarrow> lazyLine s2))"

subsection \<open>Cleaning a captured line\<close>

text \<open>\<^verbatim>\<open>replace(/\*+/g, '')\<close>: every asterisk goes.\<close>

definition removeStars :: "jsstring \<Rightarrow> jsstring" where
  "removeStars s = filter (\<lambda>c. c \<noteq> 0x2A) s"

text \<open>
  \<^verbatim>\<open>replace(/\[.*?\]/g, '')\<close>: from an opening bracket, the lazy \<^verbatim>\<open>.*?\<close> runs
  to the first closing bracket unless a line terminator comes first; the bracketed part
  is dropped and the scan goes on after it.
\<close>

fun closing :: "jsstring \<Rightarrow> jsstring option" where
  "closing [] = None"
| "closing (c # cs) =
     (if c = 0x5D then Some cs else if isLineTerminator c then None else closing cs)"

function removeBracketed :: "jsstring \<Rightarrow> jsstring" where
  "removeBracketed [] = []"
| "removeBracketed (c # cs) =
     (if c = 0x5B
      then (case closing cs of
              Some rest \<Rightarrow> removeBracketed rest
            | None \<Rightarrow> c # removeBracketed cs)
      else c # removeBracketed cs)"
  by pat_completeness auto
termination
proof (relation "measure length")
  fix c :: "16 word" and cs rest :: jsstring
  assume "closing cs = Some rest"
  moreover have "length r \<le> length xs" if "closing xs = Some r" for xs r
    using that by (induction xs) (auto split: if_splits)
  ultimately show "(rest, c # cs) \<in> measure length" by fastforce
qed auto

definition cleanLine :: "jsstring \<Rightarrow> jsstring" where
  "cleanLine g = trim (removeBracketed (removeStars (trim g)))"

text \<open>\<^verbatim>\<open>s.split(/\s+/)\<close>.\<close>

function splitBlank :: "jsstring \<Rightarrow> jsstring list" where
  "splitBlank [] = [[]]"
| "splitBlank (c # cs) =
     (if isWhiteSpace c then [] # splitBlank (dropWhile isWhiteSpace cs)
      else consFirst c (splitBlank cs))"
  by pat_completeness auto
termination
  by (relation "measure length") (auto simp: length_dropWhile_le less_Suc_eq_le)

subsection \<open>The priority chain\<close>

definition voiceResponse :: "jsstring \<Rightarrow> jsstring option" where
  "voiceResponse response =
     (case search voiceResponseAt response of None \<Rightarrow> None
      | Some g \<Rightarrow>
          let text = cleanLine g
          in if text \<noteq> [] \<and> length (splitBlank text) \<le> 60 then Some text else None)"

definition customCompleted :: "jsstring \<Rightarrow> jsstring option" where
  "customCompleted response =
     (case search customCompletedAt response of None \<Rightarrow> None
      | Some g \<Rightarrow>
          let text = cleanLine g
          in if text \<noteq> [] \<and> length (splitBlank text) \<le> 50 then Some text else None)"

definition completed :: "jsstring \<Rightarrow> jsstring option" where
  "completed response =
     (case search completedAt response of None \<Rightarrow> None
      | Some g \<Rightarrow> Some (cleanLine g))"

definition stripMarkup :: "jsstring \<Rightarrow> jsstring" where
  "stripMarkup s = filter (\<lambda>c. c \<noteq> 0x2A \<and> c \<noteq> 0x23 \<and> c \<noteq> 0x60) s"

definition extractVoiceLine :: "jsstring \<Rightarrow> jsstring" where
  "extractVoiceLine response =
     (case voiceResponse response of Some text \<Rightarrow> text
      | None \<Rightarrow>
         (case customCompleted response of Some text \<Rightarrow> text
          | None \<Rightarrow>
             (case completed response of Some text \<Rightarrow> text
              | None \<Rightarrow>
                 let words = take 120 (splitBlank (trim (stripMarkup response)))
                 in if length words > 0 then join words (js '' '')
                    else trim (take 500 response))))"

text \<open>
  The specification's tokens: the maximal runs of non-blank characters of a text, in
  order.
\<close>

function tokensSpec :: "jsstring \<Rightarrow> jsstring list" where
  "tokensSpec s =
     (let t = dropWhile isWhiteSpace s
      in if t = [] then []
         else takeWhile (\<lambda>c. \<not> isWhiteSpace c) t # tokensSpec (dropWhile (\<lambda>c. \<not> isWhiteSpace c) t))"
  by pat_completeness auto
termination
proof (relation "measure length")
  fix s t :: jsstring
  assume t: "t = dropWhile isWhiteSpace s" and ne: "t \<noteq> []"
  from ne obtain c cs where c: "t = c # cs" by (meson neq_Nil_conv)
  have "\<not> isWhiteSpace (hd t)" using ne unfolding t by (rule hd_dropWhile)
  then have "\<not> isWhiteSpace c" using c by simp
  then have "length (dropWhile (\<lambda>c. \<not> isWhiteSpace c) t) < length t"
    using c by (simp add: length_dropWhile_le less_Suc_eq_le)
  also have "length t \<le> length s" using t by (simp add: length_dropWhile_le)
  finally show "(dropWhile (\<lambda>c. \<not> isWhiteSpace c) t, s) \<in> measure length" by simp
qed simp

declare tokensSpec.simps [simp del]

text \<open>
  The specification's last two steps, for a raw text without an accepted marked line: the
  first 120 tokens of the text without its markup characters, joined by single blanks;
  and where there is no token, the first 500 characters of the raw text, trimmed.
\<close>

definition fallbackSpec :: "jsstring \<Rightarrow> jsstring" where
  "fallbackSpec response =
     (let tokens = take 120 (tokensSpec (stripMarkup response))
      in if tokens = [] then trim (take 500 response) else join tokens (js '' ''))"


section \<open>Device resolution in \<^verbatim>\<open>handleInvite\<close>\<close>

record deviceConfig =
  name :: jsstring
  prompt :: "jsstring option"
  voiceId :: "jsstring option"

text \<open>
  Modelled from the spec: the device registry (\<^verbatim>\<open>lib/device-registry.js\<close> is not
  among the sources).  \<open>get\<close> looks a dialed identifier up and returns the profile or
  nothing; \<open>getDefault\<close> returns the DEFAULT profile, which always exists;
  \<open>getAllDevices\<close> is the table of configured profiles, in the order in which
  \<^verbatim>\<open>Object.keys\<close> enumerates it.
\<close>

record deviceRegistry =
  get :: "jsstring \<Rightarrow> deviceConfig option"
  getDefault :: deviceConfig
  getAllDevices :: "(jsstring \<times> deviceConfig) list"

text \<open>
  \<^verbatim>\<open>extractDialedExtension\<close>: the pattern \<^verbatim>\<open>/sip:(\d+)@/\<close> on the To header
  (the empty string when the header is absent).  The greedy run of digits must be
  followed by \<^verbatim>\<open>@\<close>, so no shorter run can match.
\<close>

definition isDigit :: "16 word \<Rightarrow> bool" where
  "isDigit c = (0x30 \<le> c \<and> c \<le> 0x39)"

definition dialedAt :: "jsstring \<Rightarrow> jsstring option" where
  "dialedAt s =
     (if startsWith s (js ''sip:'')
      then let r = drop 4 s; d = takeWhile isDigit r
           in if d \<noteq> [] \<and> startsWith (dropWhile isDigit r) (js ''@'') then Some d else None
      else None)"

definition extractDialedExtension :: "jsstring option \<Rightarrow> jsstring option" where
  "extractDialedExtension toHeader =
     search dialedAt (case toHeader of None \<Rightarrow> [] | Some t \<Rightarrow> t)"

text \<open>
  The device lookup of \<^verbatim>\<open>handleInvite\<close>.  The registry itself may be missing from
  \<^verbatim>\<open>options\<close>; the result \<open>None\<close> is the \<^verbatim>\<open>null\<close> that
  \<^verbatim>\<open>conversationLoop\<close> takes for its built-in default.
\<close>

definition selectDevice ::
  "deviceRegistry option \<Rightarrow> jsstring option \<Rightarrow> deviceConfig option" where
  "selectDevice deviceRegistry dialedExt =
     (let deviceConfig =
        (case deviceRegistry of None \<Rightarrow> None
         | Some reg \<Rightarrow>
            (case dialedExt of None \<Rightarrow> None
             | Some ext \<Rightarrow>
                if ext = [] then None
                else (case get reg ext of
                        Some d \<Rightarrow> Some d
                      | None \<Rightarrow> Some (getDefault reg))))
      in case deviceConfig of
           Some d \<Rightarrow> Some d
         | None \<Rightarrow>
            (case deviceRegistry of None \<Rightarrow> None
             | Some reg \<Rightarrow>
                (case getAllDevices reg of
                   [] \<Rightarrow> Some (getDefault reg)
                 | (firstExt, d) # _ \<Rightarrow>
                     if firstExt \<noteq> [] then Some d else Some (getDefault reg))))"

section \<open>The conversation loop: \<^verbatim>\<open>conversationLoop\<close>\<close>

subsection \<open>Collaborators, events and the state of a call\<close>

type_synonym audio = "8 word list"

datatype role = User | Assistant

text \<open>
  What the loop does to the outside, in the order of the source: calls on the
  collaborators handed in through \<^verbatim>\<open>options\<close>, on the endpoint, the fork session
  and the dialog, and the three log lines that mark a turn, a caught error and the
  start of the cleanup.
\<close>

datatype action =
    WebhookStart
  | GenerateSpeech jsstring jsstring
  | Play jsstring
  | ExpectSession
  | ForkAudioStart
  | AwaitSession
  | TurnLog nat
  | SetCaptureEnabled bool
  | WaitForUtterance
  | Transcribe audio
  | PlayHoldMusic
  | Query jsstring "jsstring option"
  | UuidBreak
  | ErrorLog
  | CleanupLog
  | EndSession
  | ForkAudioStop
  | SendTranscript nat jsstring
  | DialogDestroy

text \<open>
  The collaborators are not under the loop's control: each call may resolve or reject,
  differently every time.  A \<open>world\<close> fixes these answers; its first argument is the
  number of events of the call so far.  \<open>completes\<close> answers for the calls whose result
  value is not used; \<open>randomIndex\<close> is \<^verbatim>\<open>Math.random()\<close> scaled to an index.
\<close>

record world =
  generateSpeech :: "nat \<Rightarrow> jsstring \<Rightarrow> jsstring \<Rightarrow> jsstring option"
  waitForUtterance :: "nat \<Rightarrow> audio option"
  transcribe :: "nat \<Rightarrow> audio \<Rightarrow> jsstring option"
  query :: "nat \<Rightarrow> jsstring \<Rightarrow> jsstring option \<Rightarrow> jsstring option"
  completes :: "nat \<Rightarrow> action \<Rightarrow> bool"
  randomIndex :: "nat \<Rightarrow> nat"

text \<open>
  The local variables of \<^verbatim>\<open>conversationLoop\<close> that outlive a statement, and the
  trace: every event with its outcome (\<open>True\<close>: returned or resolved, \<open>False\<close>: threw
  or rejected).
\<close>

record call =
  trace :: "(action \<times> bool) list"
  callTranscript :: "(role \<times> jsstring) list"
  forkRunning :: bool
  session :: bool

datatype flow = Continue | Break | Throw

definition READY_BEEP_URL :: jsstring where
  "READY_BEEP_URL = js ''http://127.0.0.1:3000/static/ready-beep.wav''"

definition GOTIT_BEEP_URL :: jsstring where
  "GOTIT_BEEP_URL = js ''http://127.0.0.1:3000/static/gotit-beep.wav''"

definition DEFAULT_VOICE_ID :: jsstring where
  "DEFAULT_VOICE_ID = js ''JBFqnCBsd6RMkjVDRZzb''"

definition THINKING_PHRASES :: "jsstring list" where
  "THINKING_PHRASES =
     [js ''Pondering...'', js ''Elucidating...'', js ''Cogitating...'', js ''Ruminating...'',
      js ''Contemplating...'', js ''Consulting the oracle...'', js ''Summoning knowledge...'',
      js ''Engaging neural pathways...'', js ''Accessing the mainframe...'',
      js ''Querying the void...'', js ''Let me think about that...'', js ''Processing...'',
      js ''Hmm, interesting question...'', js ''One moment...'', js ''Searching my brain...'']"

definition MAX_TURNS :: nat where
  "MAX_TURNS = 20"

definition noSpeechPrompt :: jsstring where
  "noSpeechPrompt = js ''I didn't hear anything. Are you still there?''"

definition clarifyPrompt :: jsstring where
  "clarifyPrompt = js ''Sorry, I didn't catch that. Could you repeat?''"

definition farewellLine :: jsstring where
  "farewellLine = js ''Goodbye! Call again anytime.''"

definition closingLine :: jsstring where
  "closingLine = js ''We've been talking for a while. Goodbye!''"

definition apologyLine :: jsstring where
  "apologyLine = js ''Sorry, something went wrong.''"

definition now :: "call \<Rightarrow> nat" where
  "now c = length (trace c)"

definition emit :: "action \<Rightarrow> bool \<Rightarrow> call \<Rightarrow> call" where
  "emit a ok c = c\<lparr>trace := trace c @ [(a, ok)]\<rparr>"

text \<open>A call whose result is not used: the event, and whether it completed.\<close>

definition attempt :: "world \<Rightarrow> action \<Rightarrow> call \<Rightarrow> bool \<times> call" where
  "attempt w a c = (let ok = completes w (now c) a in (ok, emit a ok c))"

text \<open>
  \<^verbatim>\<open>const url = await ttsService.generateSpeech(text, voiceId); await endpoint.play(url);\<close>
  The result is \<open>False\<close> when either call rejects.
\<close>

definition speak :: "world \<Rightarrow> jsstring \<Rightarrow> jsstring \<Rightarrow> call \<Rightarrow> bool \<times> call" where
  "speak w text vid c =
     (case generateSpeech w (now c) text vid of
        None \<Rightarrow> (False, emit (GenerateSpeech text vid) False c)
      | Some url \<Rightarrow> attempt w (Play url) (emit (GenerateSpeech text vid) True c))"

definition pushTranscript :: "role \<Rightarrow> jsstring \<Rightarrow> call \<Rightarrow> call" where
  "pushTranscript r text c = c\<lparr>callTranscript := callTranscript c @ [(r, text)]\<rparr>"

text \<open>
  The end of a path through the iteration, after a last awaited call: a rejection is
  thrown out of the loop, otherwise the iteration ends as \<open>f\<close> says.
\<close>

definition orThrow :: "flow \<Rightarrow> bool \<times> call \<Rightarrow> flow \<times> call" where
  "orThrow f r = (if fst r then (f, snd r) else (Throw, snd r))"

subsection \<open>One iteration\<close>

text \<open>From the thinking phrase to the end of the iteration.\<close>

definition respond ::
  "world \<Rightarrow> jsstring \<Rightarrow> jsstring option \<Rightarrow> jsstring \<Rightarrow> call \<Rightarrow> flow \<times> call" where
  "respond w vid devicePrompt transcript c0 =
     (let thinkingPhrase =
            THINKING_PHRASES ! (randomIndex w (now c0) mod length THINKING_PHRASES)
      in case speak w thinkingPhrase vid c0 of
           (False, c1) \<Rightarrow> (Throw, c1)
         | (True, c1) \<Rightarrow>
            let c2 = snd (attempt w PlayHoldMusic c1)
            in (case query w (now c2) transcript devicePrompt of
                  None \<Rightarrow> (Throw, emit (Query transcript devicePrompt) False c2)
                | Some claudeResponse \<Rightarrow>
                   let c3 = emit (Query transcript devicePrompt) True c2;
                       c4 = snd (attempt w UuidBreak c3);
                       voiceLine = extractVoiceLine claudeResponse;
                       c5 = pushTranscript Assistant voiceLine c4
                   in orThrow Continue (speak w voiceLine vid c5)))"

text \<open>From the transcription to the end of the iteration.\<close>

definition decide ::
  "world \<Rightarrow> jsstring \<Rightarrow> jsstring option \<Rightarrow> audio \<Rightarrow> call \<Rightarrow> flow \<times> call" where
  "decide w vid devicePrompt audio c0 =
     (case transcribe w (now c0) audio of
        None \<Rightarrow> (Throw, emit (Transcribe audio) False c0)
      | Some transcript \<Rightarrow>
         let c1 = pushTranscript User transcript (emit (Transcribe audio) True c0)
         in if transcript = [] \<or> length (trim transcript) < 2
            then orThrow Continue (speak w clarifyPrompt vid c1)
            else if isGoodbye transcript
            then orThrow Break
                   (speak w farewellLine vid (pushTranscript Assistant farewellLine c1))
            else respond w vid devicePrompt transcript c1)"

text \<open>The body of the \<^verbatim>\<open>while\<close> loop; \<open>turnCount\<close> is the counter after its increment.\<close>

definition turn ::
  "world \<Rightarrow> jsstring \<Rightarrow> jsstring option \<Rightarrow> nat \<Rightarrow> call \<Rightarrow> flow \<times> call" where
  "turn w vid devicePrompt turnCount c0 =
     (let c1 = emit (TurnLog turnCount) True c0;
          c2 = snd (attempt w (Play READY_BEEP_URL) c1);
          c3 = emit (SetCaptureEnabled True) True c2;
          utterance = waitForUtterance w (now c3);
          c4 = emit WaitForUtterance (utterance \<noteq> None) c3;
          c5 = emit (SetCaptureEnabled False) True c4
      in case utterance of
           None \<Rightarrow> orThrow Continue (speak w noSpeechPrompt vid c5)
         | Some audio \<Rightarrow>
             decide w vid devicePrompt audio (snd (attempt w (Play GOTIT_BEEP_URL) c5)))"

subsection \<open>The loop, the handlers and the whole function\<close>

function turnLoop ::
  "world \<Rightarrow> jsstring \<Rightarrow> jsstring option \<Rightarrow> nat \<Rightarrow> call \<Rightarrow> flow \<times> nat \<times> call" where
  "turnLoop w vid devicePrompt turnCount c =
     (if turnCount < MAX_TURNS
      then (case turn w vid devicePrompt (turnCount + 1) c of
              (Continue, c') \<Rightarrow> turnLoop w vid devicePrompt (turnCount + 1) c'
            | (Break, c') \<Rightarrow> (Break, turnCount + 1, c')
            | (Throw, c') \<Rightarrow> (Throw, turnCount + 1, c'))
      else (Continue, turnCount, c))"
  by pat_completeness auto
termination
  by (relation "measure (\<lambda>(w, vid, devicePrompt, turnCount, c). MAX_TURNS - turnCount)") auto

declare turnLoop.simps [simp del]

definition voiceOf :: "deviceConfig option \<Rightarrow> jsstring" where
  "voiceOf deviceConfig =
     (case deviceConfig of None \<Rightarrow> DEFAULT_VOICE_ID
      | Some d \<Rightarrow>
         (case voiceId d of None \<Rightarrow> DEFAULT_VOICE_ID
          | Some v \<Rightarrow> if v = [] then DEFAULT_VOICE_ID else v))"

definition promptOf :: "deviceConfig option \<Rightarrow> jsstring option" where
  "promptOf deviceConfig = (case deviceConfig of None \<Rightarrow> None | Some d \<Rightarrow> prompt d)"

definition greeting :: "deviceConfig option \<Rightarrow> jsstring" where
  "greeting deviceConfig =
     (case deviceConfig of
        None \<Rightarrow> js ''Hello! I'm your server. How can I help you today?''
      | Some d \<Rightarrow>
         if name d \<noteq> js ''Morpheus''
         then js ''Hello! I'm '' @ name d @ js ''. How can I help you today?''
         else js ''Hello! I'm your server. How can I help you today?'')"

text \<open>The \<^verbatim>\<open>try\<close> block; the result is \<open>False\<close> when it threw.\<close>

definition tryBlock :: "world \<Rightarrow> deviceConfig option \<Rightarrow> call \<Rightarrow> bool \<times> call" where
  "tryBlock w deviceConfig c0 =
     (case speak w (greeting deviceConfig) (voiceOf deviceConfig) c0 of
        (False, c1) \<Rightarrow> (False, c1)
      | (True, c1) \<Rightarrow>
         (case attempt w ForkAudioStart (emit ExpectSession True c1) of
            (False, c2) \<Rightarrow> (False, c2)
          | (True, c2) \<Rightarrow>
             (case attempt w AwaitSession (c2\<lparr>forkRunning := True\<rparr>) of
                (False, c3) \<Rightarrow> (False, c3)
              | (True, c3) \<Rightarrow>
                 (case turnLoop w (voiceOf deviceConfig) (promptOf deviceConfig) 0
                         (c3\<lparr>session := True\<rparr>) of
                    (Throw, turnCount, c4) \<Rightarrow> (False, c4)
                  | (_, turnCount, c4) \<Rightarrow>
                      if turnCount \<ge> MAX_TURNS
                      then speak w closingLine (voiceOf deviceConfig) c4
                      else (True, c4)))))"

text \<open>The \<^verbatim>\<open>catch\<close> block: everything after the log line is itself guarded.\<close>

definition catchBlock :: "world \<Rightarrow> jsstring \<Rightarrow> call \<Rightarrow> call" where
  "catchBlock w vid c0 =
     (let c1 = emit ErrorLog True c0;
          c2 = (if session c1 then emit (SetCaptureEnabled False) True c1 else c1)
      in snd (speak w apologyLine vid c2))"

text \<open>
  The text sent to the webhook:
  \<^verbatim>\<open>callTranscript.map(t => (t.role === "user" ? "Caller" : "Claude") + ": " + t.text.trim()).join("\n")\<close>.
\<close>

definition transcriptText :: "(role \<times> jsstring) list \<Rightarrow> jsstring" where
  "transcriptText ts =
     join (map (\<lambda>(r, text). (if r = User then js ''Caller'' else js ''Claude'') @ js '': '' @ trim text) ts)
          [0x0A]"

text \<open>The \<^verbatim>\<open>finally\<close> block: four steps, each in a \<^verbatim>\<open>try\<close> of its own.\<close>

definition finallyBlock :: "world \<Rightarrow> call \<Rightarrow> call" where
  "finallyBlock w c0 =
     (let c1 = emit CleanupLog True c0;
          c2 = snd (attempt w EndSession c1);
          c3 = (if forkRunning c2 then snd (attempt w ForkAudioStop c2) else c2);
          c4 = snd (attempt w
                 (SendTranscript (length (callTranscript c3)) (transcriptText (callTranscript c3))) c3)
      in snd (attempt w DialogDestroy c4))"

definition newCall :: call where
  "newCall = \<lparr>trace = [], callTranscript = [], forkRunning = False, session = False\<rparr>"

definition conversationLoop :: "world \<Rightarrow> deviceConfig option \<Rightarrow> call" where
  "conversationLoop w deviceConfig =
     (let c0 = snd (attempt w WebhookStart newCall)
      in case tryBlock w deviceConfig c0 of
           (True, c1) \<Rightarrow> finallyBlock w c1
         | (False, c1) \<Rightarrow> finallyBlock w (catchBlock w (voiceOf deviceConfig) c1))"


section \<open>Vocabulary of the proofs and concrete inputs\<close>

text \<open>The flag of \<open>stripLoop\<close> after a run of lines, and its closed form.\<close>

fun flagAfter :: "bool \<Rightarrow> jsstring list \<Rightarrow> bool" where
  "flagAfter b [] = b"
| "flagAfter b (l # ls) =
     flagAfter (if startsWith l (js ''m=video'') then True
                else if startsWith l (js ''m='') then False else b) ls"

definition stateAfter :: "jsstring list \<Rightarrow> bool" where
  "stateAfter ls =
     (case filter (\<lambda>l. startsWith l (js ''m='')) (rev ls) of
        [] \<Rightarrow> False
      | h # _ \<Rightarrow> startsWith h (js ''m=video''))"

definition hasCRLF :: "jsstring \<Rightarrow> bool" where
  "hasCRLF s = sublist CRLF s"

text \<open>An offer with an audio section followed by a video section, every record terminated.\<close>

definition audioThenVideo :: jsstring where
  "audioThenVideo =
     js ''v=0'' @ CRLF @ js ''m=audio 49170 RTP/AVP 0'' @ CRLF @ js ''a=sendrecv'' @ CRLF @
     js ''m=video 51372 RTP/AVP 31'' @ CRLF @ js ''a=rtpmap:31 H261/90000'' @ CRLF"

text \<open>An offer with the video section in the middle.\<close>

definition videoInTheMiddle :: jsstring where
  "videoInTheMiddle =
     js ''v=0'' @ CRLF @ js ''m=video 51372 RTP/AVP 31'' @ CRLF @ js ''a=rtpmap:31 H261/90000'' @ CRLF @
     js ''m=audio 49170 RTP/AVP 0'' @ CRLF @ js ''a=sendrecv''"

text \<open>The raw text of the specification's example of a voice line.\<close>

definition sunnyResponse :: jsstring where
  "sunnyResponse =
     speakingHead @ js '' VOICE_RESPONSE: It's sunny today.'' @ [0x0A] @
     targetEmoji @ js '' COMPLETED: gave weather''"

text \<open>The lookup of \<^verbatim>\<open>handleInvite\<close> from the To header on.\<close>

definition resolveDevice ::
  "deviceRegistry option \<Rightarrow> jsstring option \<Rightarrow> deviceConfig option" where
  "resolveDevice deviceRegistry toHeader =
     selectDevice deviceRegistry (extractDialedExtension toHeader)"

text \<open>A registry with one profile, at extension 9000, and an empty one.\<close>

definition morpheus :: deviceConfig where
  "morpheus = \<lparr>name = js ''Morpheus'', prompt = None, voiceId = Some DEFAULT_VOICE_ID\<rparr>"

definition claudeDevice :: deviceConfig where
  "claudeDevice =
     \<lparr>name = js ''Claude'', prompt = Some (js ''You are Claude.''), voiceId = Some DEFAULT_VOICE_ID\<rparr>"

definition oneDevice :: deviceRegistry where
  "oneDevice =
     \<lparr>get = (\<lambda>e. if e = js ''9000'' then Some claudeDevice else None),
      getDefault = morpheus,
      getAllDevices = [(js ''9000'', claudeDevice)]\<rparr>"

definition noDevices :: deviceRegistry where
  "noDevices = \<lparr>get = (\<lambda>e. None), getDefault = morpheus, getAllDevices = []\<rparr>"

subsection \<open>Reading a trace\<close>

text \<open>
  The capture flag of the fork session after a trace, and the ordering property of the
  specification: no transcription is called while capture is enabled.
\<close>

fun captureAfter :: "bool \<Rightarrow> (action \<times> bool) list \<Rightarrow> bool" where
  "captureAfter b [] = b"
| "captureAfter b ((SetCaptureEnabled e, ok) # es) = captureAfter e es"
| "captureAfter b (_ # es) = captureAfter b es"

fun captureSafe :: "bool \<Rightarrow> (action \<times> bool) list \<Rightarrow> bool" where
  "captureSafe b [] = True"
| "captureSafe b ((SetCaptureEnabled e, ok) # es) = captureSafe e es"
| "captureSafe b ((Transcribe a, ok) # es) = (\<not> b \<and> captureSafe b es)"
| "captureSafe b (_ # es) = captureSafe b es"

text \<open>The turn numbers logged, in order.\<close>

fun turnNumbers :: "(action \<times> bool) list \<Rightarrow> nat list" where
  "turnNumbers [] = []"
| "turnNumbers ((TurnLog n, ok) # es) = n # turnNumbers es"
| "turnNumbers (_ # es) = turnNumbers es"

text \<open>The events of the cleanup.\<close>

fun isCleanup :: "action \<Rightarrow> bool" where
  "isCleanup CleanupLog = True"
| "isCleanup EndSession = True"
| "isCleanup ForkAudioStop = True"
| "isCleanup (SendTranscript n t) = True"
| "isCleanup DialogDestroy = True"
| "isCleanup _ = False"

text \<open>The events of one iteration.\<close>

definition iteration ::
  "world \<Rightarrow> jsstring \<Rightarrow> jsstring option \<Rightarrow> nat \<Rightarrow> call \<Rightarrow> (action \<times> bool) list" where
  "iteration w vid devicePrompt turnCount c =
     drop (now c) (trace (snd (turn w vid devicePrompt turnCount c)))"

subsection \<open>Concrete worlds\<close>

text \<open>The caller never speaks; everything else works.\<close>

definition silentWorld :: world where
  "silentWorld =
     \<lparr>generateSpeech = (\<lambda>t text vid. Some (js ''tts.mp3'')),
      waitForUtterance = (\<lambda>t. None),
      transcribe = (\<lambda>t a. None),
      query = (\<lambda>t q p. None),
      completes = (\<lambda>t a. True),
      randomIndex = (\<lambda>t. 0)\<rparr>"


text \<open>The caller never speaks, and the prompt that says so cannot be synthesised.\<close>

definition failedPrompt :: world where
  "failedPrompt =
     silentWorld\<lparr>generateSpeech :=
       (\<lambda>t text vid. if text = noSpeechPrompt then None else Some (js ''tts.mp3''))\<rparr>"

text \<open>A caller who asks one question and says goodbye; every cleanup step fails.\<close>

definition chatWorld :: world where
  "chatWorld =
     \<lparr>generateSpeech = (\<lambda>t text vid. Some (js ''tts.mp3'')),
      waitForUtterance = (\<lambda>t. Some [1, 2, 3]),
      transcribe = (\<lambda>t a. if t < 20 then Some (js ''what time is it'') else Some (js ''ok bye'')),
      query = (\<lambda>t q p. Some (js ''It is noon.'')),
      completes = (\<lambda>t a. \<not> isCleanup a),
      randomIndex = (\<lambda>t. 3)\<rparr>"

subsection \<open>Shapes of event sequences\<close>

text \<open>The events of speaking, querying and hold music: no capture, no transcription.\<close>

fun plain :: "action \<Rightarrow> bool" where
  "plain (GenerateSpeech t v) = True"
| "plain (Play u) = True"
| "plain PlayHoldMusic = True"
| "plain (Query t p) = True"
| "plain UuidBreak = True"
| "plain _ = False"

definition quiet :: "(action \<times> bool) list \<Rightarrow> bool" where
  "quiet es = list_all (\<lambda>e. plain (fst e)) es"

text \<open>
  What a stretch of the \<^verbatim>\<open>try\<close> block may add to the trace: it is safe for
  capture from any flag, and it holds no cleanup event and no error log.
\<close>

definition calm :: "(action \<times> bool) list \<Rightarrow> bool" where
  "calm es =
     ((\<forall>b. captureSafe b es) \<and> list_all (\<lambda>e. \<not> isCleanup (fst e) \<and> fst e \<noteq> ErrorLog) es)"

text \<open>\<open>c'\<close> is \<open>c\<close> with events added that satisfy \<open>P\<close>; the flags are those of \<open>c\<close>.\<close>

definition after :: "call \<Rightarrow> call \<Rightarrow> ((action \<times> bool) list \<Rightarrow> bool) \<Rightarrow> bool" where
  "after c c' P =
     (\<exists>es. trace c' = trace c @ es \<and> P es \<and>
           forkRunning c' = forkRunning c \<and> session c' = session c)"

definition forkless :: "(action \<times> bool) list \<Rightarrow> bool" where
  "forkless es = list_all (\<lambda>e. fst e \<noteq> ForkAudioStart) es"

text \<open>The events of one iteration: the listening phase, then what follows it.\<close>

definition turnShaped :: "nat \<Rightarrow> (action \<times> bool) list \<Rightarrow> bool" where
  "turnShaped n es =
     (\<exists>beep heard rest.
        es = [(TurnLog n, True), (Play READY_BEEP_URL, beep), (SetCaptureEnabled True, True),
              (WaitForUtterance, heard), (SetCaptureEnabled False, True)] @ rest \<and>
        (quiet rest \<or>
         (\<exists>gotit a ok rest'.
            rest = (Play GOTIT_BEEP_URL, gotit) # (Transcribe a, ok) # rest' \<and> quiet rest')))"

text \<open>The events of the cleanup of a call that ends in the state \<open>c\<close>.\<close>

definition cleanupActions :: "call \<Rightarrow> action list" where
  "cleanupActions c =
     [CleanupLog, EndSession] @ (if forkRunning c then [ForkAudioStop] else []) @
     [SendTranscript (length (callTranscript c)) (transcriptText (callTranscript c)),
      DialogDestroy]"

definition inner :: "(action \<times> bool) list \<Rightarrow> bool" where
  "inner es = (calm es \<and> forkless es)"

text \<open>
  The events of the \<^verbatim>\<open>try\<close> block: \<open>n\<close> turns were begun; when the block ends
  without a throw after the twentieth, its last events are the closing line, synthesised
  and played; the fork is running afterwards when it ran before or was started.
\<close>

definition tryShaped ::
  "deviceConfig option \<Rightarrow> bool \<Rightarrow> bool \<Rightarrow> bool \<Rightarrow> (action \<times> bool) list \<Rightarrow> bool" where
  "tryShaped dc ok fr0 fr1 es =
     (\<exists>n. calm es \<and> turnNumbers es = [1..<Suc n] \<and> n \<le> MAX_TURNS \<and>
          (ok \<longrightarrow> n = MAX_TURNS \<longrightarrow>
             (\<exists>pre url. es = pre @ [(GenerateSpeech closingLine (voiceOf dc), True), (Play url, True)])) \<and>
          (fr1 = (fr0 \<or> (ForkAudioStart, True) \<in> set es)))"

text \<open>The events of the \<^verbatim>\<open>catch\<close> block, which runs when the \<^verbatim>\<open>try\<close> block threw.\<close>

definition handlerShaped :: "bool \<Rightarrow> (action \<times> bool) list \<Rightarrow> bool" where
  "handlerShaped ok hs =
     (if ok then hs = []
      else \<exists>cap e. hs = (ErrorLog, True) # cap @ e \<and>
             (cap = [] \<or> cap = [(SetCaptureEnabled False, True)]) \<and> quiet e)"

subsection \<open>Silent turns\<close>

text \<open>
  The events of a turn in which the caller says nothing and the prompt is played, and
  the worlds in which every turn is like that while the clock is below \<open>T\<close>.
\<close>

definition silentEvents :: "jsstring \<Rightarrow> nat \<Rightarrow> (action \<times> bool) list" where
  "silentEvents vid n =
     [(TurnLog n, True), (Play READY_BEEP_URL, True), (SetCaptureEnabled True, True),
      (WaitForUtterance, False), (SetCaptureEnabled False, True),
      (GenerateSpeech noSpeechPrompt vid, True), (Play (js ''tts.mp3''), True)]"

definition silentUntil :: "world \<Rightarrow> nat \<Rightarrow> bool" where
  "silentUntil w T =
     (\<forall>t<T. waitForUtterance w t = None \<and>
            (\<forall>text vid. generateSpeech w t text vid = Some (js ''tts.mp3'')) \<and>
            (\<forall>a. completes w t a))"

definition addEvents :: "(action \<times> bool) list \<Rightarrow> call \<Rightarrow> call" where
  "addEvents es c = c\<lparr>trace := trace c @ es\<rparr>"

text \<open>The events of a call up to the loop, when everything works.\<close>

definition preludeEvents :: "(action \<times> bool) list" where
  "preludeEvents =
     [(WebhookStart, True), (GenerateSpeech (greeting None) DEFAULT_VOICE_ID, True),
      (Play (js ''tts.mp3''), True), (ExpectSession, True), (ForkAudioStart, True),
      (AwaitSession, True)]"

definition atLoopStart :: call where
  "atLoopStart =
     \<lparr>trace = preludeEvents, callTranscript = [], forkRunning = True, session = True\<rparr>"

text \<open>A text without a blank at either end, and a raw answer without any marked line.\<close>

definition tight :: "jsstring \<Rightarrow> bool" where
  "tight u = (u = [] \<or> (\<not> isWhiteSpace (hd u) \<and> \<not> isWhiteSpace (last u)))"

definition plainAnswer :: jsstring where
  "plainAnswer = js ''  Hello **world**  # `x`   foo''"

text \<open>A raw answer made of markup characters only.\<close>

definition markupOnly :: jsstring where
  "markupOnly = js ''***''"

section \<open>Properties of the SDP sanitizer\<close>

subsection \<open>The loop against the specification's video sections\<close>

lemma video_is_media: "startsWith l (js ''m=video'') \<Longrightarrow> startsWith l (js ''m='')"
  by (auto simp: startsWith_def js_def prefix_def)

lemma stateAfter_snoc:
  "stateAfter (ls @ [l]) =
     (if startsWith l (js ''m=video'') then True
      else if startsWith l (js ''m='') then False else stateAfter ls)"
  by (simp add: stateAfter_def video_is_media)

lemma flagAfter_snoc:
  "flagAfter b (ls @ [l]) =
     (if startsWith l (js ''m=video'') then True
      else if startsWith l (js ''m='') then False else flagAfter b ls)"
  by (induction ls arbitrary: b) simp_all

lemma flagAfter_False: "flagAfter False ls = stateAfter ls"
proof (induction ls rule: rev_induct)
  case Nil
  show ?case by (simp add: stateAfter_def)
next
  case (snoc l ls)
  then show ?case by (simp add: flagAfter_snoc stateAfter_snoc)
qed

lemma stripLoop_snoc:
  "stripLoop b (ls @ [l]) = stripLoop b ls @ (if flagAfter b (ls @ [l]) then [] else [l])"
  by (induction ls arbitrary: b) (auto simp: Let_def video_is_media)

lemma inVideoSectionSpec_stateAfter: "inVideoSectionSpec ls i = stateAfter (take (Suc i) ls)"
  by (simp add: inVideoSectionSpec_def stateAfter_def)

lemma keptLinesSpec_snoc:
  "keptLinesSpec (ls @ [l]) = keptLinesSpec ls @ (if stateAfter (ls @ [l]) then [] else [l])"
proof -
  let ?n = "length ls"
  have f: "filter (\<lambda>i. \<not> inVideoSectionSpec (ls @ [l]) i) [0..<?n] =
           filter (\<lambda>i. \<not> inVideoSectionSpec ls i) [0..<?n]"
    by (rule filter_cong) (simp_all add: inVideoSectionSpec_stateAfter)
  have m: "map (\<lambda>i. (ls @ [l]) ! i) (filter (\<lambda>i. \<not> inVideoSectionSpec ls i) [0..<?n]) =
           map (\<lambda>i. ls ! i) (filter (\<lambda>i. \<not> inVideoSectionSpec ls i) [0..<?n])"
    by (rule map_cong) (simp_all add: nth_append)
  have last: "inVideoSectionSpec (ls @ [l]) ?n = stateAfter (ls @ [l])"
    by (simp add: inVideoSectionSpec_stateAfter)
  show ?thesis
    unfolding keptLinesSpec_def
    by (simp add: f m last)
qed

lemma stripLoop_keptLinesSpec: "stripLoop False ls = keptLinesSpec ls"
proof (induction ls rule: rev_induct)
  case Nil
  show ?case by (simp add: keptLinesSpec_def)
next
  case (snoc l ls)
  then show ?case
    by (simp only: stripLoop_snoc keptLinesSpec_snoc flagAfter_False)
qed

subsection \<open>Splitting what was joined\<close>

lemma splitAt_nonempty: "splitAt sep s \<noteq> []"
  by (induction sep s rule: splitAt.induct) (auto simp: consFirst_def split: list.splits)

lemma hasCRLF_Cons: "hasCRLF (c # cs) = (prefix CRLF (c # cs) \<or> hasCRLF cs)"
  by (simp add: hasCRLF_def sublist_Cons_right CRLF_def)

lemma hasCRLF_Nil: "\<not> hasCRLF []"
  by (simp add: hasCRLF_def CRLF_def)

lemma prefix_CRLF_iff: "prefix CRLF s = (\<exists>t. s = 0x0D # 0x0A # t)"
  by (auto simp: CRLF_def prefix_def)

lemma splitAt_CRLF_sep:
  "\<not> hasCRLF y \<Longrightarrow> splitAt CRLF (y @ CRLF @ t) = y # splitAt CRLF t"
proof (induction y)
  case Nil
  show ?case by (simp add: CRLF_def)
next
  case (Cons c cs)
  from Cons.prems have np: "\<not> prefix CRLF (c # cs)" and nc: "\<not> hasCRLF cs"
    by (simp_all add: hasCRLF_Cons)
  have "\<not> prefix CRLF (c # cs @ CRLF @ t)"
    using np by (cases cs) (auto simp: prefix_CRLF_iff CRLF_def)
  then show ?case
    using Cons.IH [OF nc] by (simp add: consFirst_def CRLF_def)
qed

lemma splitAt_CRLF_single: "\<not> hasCRLF y \<Longrightarrow> splitAt CRLF y = [y]"
proof (induction y)
  case Nil
  show ?case by simp
next
  case (Cons c cs)
  then show ?case by (simp add: hasCRLF_Cons consFirst_def)
qed

lemma splitAt_join:
  "ys \<noteq> [] \<Longrightarrow> \<forall>y \<in> set ys. \<not> hasCRLF y \<Longrightarrow> splitAt CRLF (join ys CRLF) = ys"
proof (induction ys CRLF rule: join.induct)
  case 1
  then show ?case by simp
next
  case (2 x)
  then show ?case by (simp add: splitAt_CRLF_single)
next
  case (3 x y ys)
  then show ?case by (simp add: splitAt_CRLF_sep)
qed

lemma splitAt_hd_prefix: "prefix (hd (splitAt sep s)) s"
  by (induction sep s rule: splitAt.induct) (auto simp: consFirst_def split: list.splits)

lemma splitAt_pieces: "\<forall>p \<in> set (splitAt CRLF s). \<not> hasCRLF p"
proof (induction "CRLF" s rule: splitAt.induct)
  case 1
  show ?case by (simp add: hasCRLF_Nil)
next
  case (2 c cs)
  show ?case
  proof (cases "prefix CRLF (c # cs)")
    case True
    then show ?thesis using 2 by (simp add: hasCRLF_Nil CRLF_def)
  next
    case False
    obtain w ws where e: "splitAt CRLF cs = w # ws"
      using splitAt_nonempty by (cases "splitAt CRLF cs") auto
    have ih: "\<forall>p \<in> set (w # ws). \<not> hasCRLF p"
      using 2(2) False e by simp
    have pw: "prefix w cs" using splitAt_hd_prefix [of CRLF cs] e by simp
    have "\<not> prefix CRLF (c # w)"
    proof
      assume "prefix CRLF (c # w)"
      then obtain t where "c # w = 0x0D # 0x0A # t" by (auto simp: prefix_CRLF_iff)
      then have "prefix CRLF (c # cs)" using pw by (auto simp: CRLF_def prefix_def)
      with False show False by simp
    qed
    then have "\<not> hasCRLF (c # w)" using ih by (simp add: hasCRLF_Cons)
    then show ?thesis using False e ih by (simp add: consFirst_def)
  qed
qed

subsection \<open>The loop keeps no video header\<close>

lemma stripLoop_subset: "set (stripLoop b ls) \<subseteq> set ls"
  by (induction ls arbitrary: b) (auto simp: Let_def)

lemma stripLoop_no_video: "\<forall>l \<in> set (stripLoop b ls). \<not> startsWith l (js ''m=video'')"
  by (induction ls arbitrary: b) (auto simp: Let_def)

lemma stripLoop_fixed:
  "\<forall>l \<in> set ls. \<not> startsWith l (js ''m=video'') \<Longrightarrow> stripLoop False ls = ls"
  by (induction ls) (auto simp: Let_def)

lemma stripVideo_idem: "stripVideoFromSdp (stripVideoFromSdp v) = stripVideoFromSdp v"
proof (cases v)
  case (Str s)
  let ?ys = "stripLoop False (split s CRLF)"
  show ?thesis
  proof (cases "s = [] \<or> ?ys = [] \<or> join ?ys CRLF = []")
    case True
    then show ?thesis using Str by auto
  next
    case False
    have nc: "\<forall>y \<in> set ?ys. \<not> hasCRLF y"
      using stripLoop_subset [of False "split s CRLF"] splitAt_pieces [of s]
      by (auto simp: split_def CRLF_def)
    have "split (join ?ys CRLF) CRLF = ?ys"
      using False nc splitAt_join [of ?ys] by (simp add: split_def CRLF_def)
    moreover have "stripLoop False ?ys = ?ys"
      by (rule stripLoop_fixed) (rule stripLoop_no_video)
    ultimately show ?thesis using Str False by simp
  qed
qed simp_all

lemma stripVideo_lines:
  "stripVideoFromSdp (Str s) = Str (join (keptLinesSpec (split s CRLF)) CRLF)"
proof (cases "s = []")
  case True
  then show ?thesis
    by (simp add: split_def CRLF_def keptLinesSpec_def inVideoSectionSpec_def startsWith_def js_def)
next
  case False
  then show ?thesis by (simp add: stripLoop_keptLinesSpec)
qed

text \<open>
  C2, as the claim states it, fails where the video section is the last one: the record
  before the video header loses its terminator.  The sanitizer returns the audio part
  without the final CRLF, while deleting exactly the records of the video section leaves
  that CRLF in place.
\<close>

theorem stripVideo_trailing_section_counterexample:
  "stripVideoFromSdp (Str audioThenVideo) =
     Str (js ''v=0'' @ CRLF @ js ''m=audio 49170 RTP/AVP 0'' @ CRLF @ js ''a=sendrecv'')
   \<and> stripVideoSpec audioThenVideo =
     js ''v=0'' @ CRLF @ js ''m=audio 49170 RTP/AVP 0'' @ CRLF @ js ''a=sendrecv'' @ CRLF
   \<and> stripVideoFromSdp (Str audioThenVideo) \<noteq> Str (stripVideoSpec audioThenVideo)"
proof -
  have a: "stripVideoFromSdp (Str audioThenVideo) =
     Str (js ''v=0'' @ CRLF @ js ''m=audio 49170 RTP/AVP 0'' @ CRLF @ js ''a=sendrecv'')"
    by code_simp
  have b: "stripVideoSpec audioThenVideo =
     js ''v=0'' @ CRLF @ js ''m=audio 49170 RTP/AVP 0'' @ CRLF @ js ''a=sendrecv'' @ CRLF"
    by code_simp
  have c: "stripVideoFromSdp (Str audioThenVideo) \<noteq> Str (stripVideoSpec audioThenVideo)"
    by code_simp
  from a b c show ?thesis by (intro conjI)
qed

text \<open>
  C2, amended.  For every session description the output is the CRLF-join of exactly
  those CRLF-separated lines of the input that lie outside every video section (a video
  header and the lines after it up to the next media header), each line unchanged and in
  its place; and sanitizing twice is sanitizing once, for every argument.
\<close>

theorem stripVideo_keeps_lines_outside_video_and_is_idempotent:
  "stripVideoFromSdp (Str s) = Str (join (keptLinesSpec (split s CRLF)) CRLF)
   \<and> stripVideoFromSdp (stripVideoFromSdp v) = stripVideoFromSdp v"
  by (simp only: stripVideo_lines stripVideo_idem)

theorem stripVideo_middle_section_witness:
  "stripVideoFromSdp (Str videoInTheMiddle) =
     Str (js ''v=0'' @ CRLF @ js ''m=audio 49170 RTP/AVP 0'' @ CRLF @ js ''a=sendrecv'')
   \<and> stripVideoFromSdp (stripVideoFromSdp (Str videoInTheMiddle)) =
     stripVideoFromSdp (Str videoInTheMiddle)"
proof -
  have k: "join (keptLinesSpec (split videoInTheMiddle CRLF)) CRLF =
     js ''v=0'' @ CRLF @ js ''m=audio 49170 RTP/AVP 0'' @ CRLF @ js ''a=sendrecv''"
    by code_simp
  show ?thesis
    using stripVideo_keeps_lines_outside_video_and_is_idempotent
            [of videoInTheMiddle "Str videoInTheMiddle"]
    unfolding k .
qed

text \<open>
  C10.  A falsy argument (\<^verbatim>\<open>undefined\<close>, \<^verbatim>\<open>null\<close> or the empty string) is
  returned as it is, by the first statement of the function and without a split.  The
  sanitizer is a total function on strings, \<^verbatim>\<open>null\<close> and \<^verbatim>\<open>undefined\<close>: every
  function it is made of has been shown to terminate, and none has an error branch.
\<close>

theorem stripVideo_falsy_unchanged: "falsy v \<Longrightarrow> stripVideoFromSdp v = v"
  by (cases v) simp_all

theorem stripVideo_falsy_unchanged_witness:
  "falsy Null \<and> stripVideoFromSdp Null = Null
   \<and> falsy Undefined \<and> stripVideoFromSdp Undefined = Undefined
   \<and> falsy (Str []) \<and> stripVideoFromSdp (Str []) = Str []"
  using stripVideo_falsy_unchanged [of Null] stripVideo_falsy_unchanged [of Undefined]
        stripVideo_falsy_unchanged [of "Str []"]
  by simp


section \<open>Properties of goodbye detection\<close>

text \<open>The transcripts the specification names behave as it says.\<close>

lemma isGoodbye_named_transcripts:
  "isGoodbye (js ''ok bye'')" "isGoodbye (js ''bye'')" "isGoodbye (js ''that's all'')"
  "\<not> isGoodbye (js ''byebye'')" "\<not> isGoodbye (js ''subvert'')"
  by code_simp+

text \<open>
  Every transcript in which a phrase stands as a separated word or clause is detected:
  the code errs only by accepting more.
\<close>

lemma includesStr_drop: "prefix p (drop j s) \<Longrightarrow> j \<le> length s \<Longrightarrow> includesStr s p"
proof (induction s arbitrary: j)
  case Nil
  then show ?case by simp
next
  case (Cons c cs)
  show ?case
  proof (cases j)
    case 0
    with Cons.prems show ?thesis by simp
  next
    case (Suc i)
    with Cons.prems have "prefix p (drop i cs)" "i \<le> length cs" by simp_all
    then have "includesStr cs p" by (rule Cons.IH)
    then show ?thesis by simp
  qed
qed

lemma phrases_nonempty: "\<forall>p \<in> set goodbyePhrases. p \<noteq> []"
  by (simp add: goodbyePhrases_def js_def)

lemma separated_detected:
  assumes "separatedPhraseSpec lower phrase" "phrase \<noteq> []"
  shows "lower = phrase \<or> includesStr lower (js '' '' @ phrase) \<or>
         startsWith lower (phrase @ js '' '') \<or> endsWith lower (js '' '' @ phrase)"
proof -
  have sp: "js '' '' = [0x20]" by (simp add: js_def)
  from assms(1) have "\<exists>i. take (length phrase) (drop i lower) = phrase \<and>
       (i = 0 \<or> lower ! (i - 1) = 0x20) \<and>
       (i + length phrase = length lower \<or> lower ! (i + length phrase) = 0x20)"
    unfolding separatedPhraseSpec_def list_ex_iff by blast
  then obtain i where
    i: "take (length phrase) (drop i lower) = phrase"
       "i = 0 \<or> lower ! (i - 1) = 0x20"
       "i + length phrase = length lower \<or> lower ! (i + length phrase) = 0x20"
    by blast
  have "length (take (length phrase) (drop i lower)) = length phrase"
    using i(1) by simp
  then have l1: "length phrase \<le> length lower - i" by simp
  have l2: "0 < length phrase" using assms(2) by simp
  from l1 l2 have len: "i + length phrase \<le> length lower" by arith
  have pre: "prefix phrase (drop i lower)"
    using i(1) take_is_prefix [of "length phrase" "drop i lower"] by simp
  show ?thesis
  proof (cases "i = 0")
    case True
    show ?thesis
    proof (cases "length phrase = length lower")
      case True
      with i(1) \<open>i = 0\<close> show ?thesis by simp
    next
      case False
      with i(3) \<open>i = 0\<close> len have b: "lower ! (length phrase) = 0x20" "length phrase < length lower"
        by simp_all
      have "take (Suc (length phrase)) lower = phrase @ [0x20]"
        using b i(1) \<open>i = 0\<close> by (simp add: take_Suc_conv_app_nth)
      then have "prefix (phrase @ [0x20]) lower"
        using take_is_prefix [of "Suc (length phrase)" lower] by simp
      then show ?thesis by (simp add: startsWith_def sp)
    qed
  next
    case False
    with i(2) have b: "lower ! (i - 1) = 0x20" by simp
    from False len assms(2) have lt: "i - 1 < length lower" by (cases phrase) simp_all
    have "drop (i - 1) lower = lower ! (i - 1) # drop (Suc (i - 1)) lower"
      using lt by (simp add: Cons_nth_drop_Suc)
    then have "drop (i - 1) lower = lower ! (i - 1) # drop i lower"
      using False by simp
    with b pre have "prefix ([0x20] @ phrase) (drop (i - 1) lower)" by simp
    moreover from lt have "i - 1 \<le> length lower" by arith
    ultimately have "includesStr lower ([0x20] @ phrase)"
      by (rule includesStr_drop)
    then show ?thesis by (simp add: sp)
  qed
qed

lemma isGoodbyeSpec_detected: "isGoodbyeSpec transcript \<Longrightarrow> isGoodbye transcript"
  unfolding isGoodbyeSpec_def isGoodbye_def Let_def list_ex_iff
  using separated_detected phrases_nonempty by blast

text \<open>
  C3.  The claim does not hold of the code.  In \<^verbatim>\<open>ok byebye\<close> the phrase
  \<^verbatim>\<open>bye\<close> occurs only as the beginning of the longer word \<^verbatim>\<open>byebye\<close>, so it
  is no separated word; but \<^verbatim>\<open>lower.includes(' ' + phrase)\<close> asks only for the
  blank in front of the phrase, and the transcript counts as a goodbye.  The two
  neighbouring tests, \<^verbatim>\<open>startsWith(phrase + ' ')\<close> and
  \<^verbatim>\<open>endsWith(' ' + phrase)\<close>, check both ends of the phrase.
\<close>

theorem isGoodbye_accepts_prefix_of_longer_word:
  "isGoodbye (js ''ok byebye'') \<and> \<not> isGoodbyeSpec (js ''ok byebye'')"
proof
  show "isGoodbye (js ''ok byebye'')" by code_simp
  show "\<not> isGoodbyeSpec (js ''ok byebye'')" by code_simp
qed

section \<open>Properties of voice-line extraction\<close>

text \<open>
  C6.  On the specification's example the marked spoken-answer line is found, cleaned
  and accepted: the result is exactly \<^verbatim>\<open>It's sunny today.\<close>
\<close>

theorem extractVoiceLine_sunny: "extractVoiceLine sunnyResponse = js ''It's sunny today.''"
  by code_simp

section \<open>Properties of device resolution\<close>

lemma search_dialedAt_nonempty: "search dialedAt s = Some ext \<Longrightarrow> ext \<noteq> []"
  by (induction s) (auto simp: dialedAt_def Let_def split: if_splits option.splits)

lemma extractDialedExtension_nonempty: "extractDialedExtension toHeader = Some ext \<Longrightarrow> ext \<noteq> []"
  unfolding extractDialedExtension_def by (rule search_dialedAt_nonempty)

text \<open>
  C5.  With a registry, the lookup always yields a profile.  A dialed identifier that
  the registry knows selects its profile; a dialed identifier that it does not know
  selects the DEFAULT profile; without a dialed identifier the first configured profile
  is selected (its key being a non-empty identifier), or the DEFAULT profile when none
  is configured.
\<close>

theorem resolveDevice_cases:
  "resolveDevice (Some reg) toHeader \<noteq> None
   \<and> (extractDialedExtension toHeader = Some ext \<longrightarrow> get reg ext = Some d \<longrightarrow>
        resolveDevice (Some reg) toHeader = Some d)
   \<and> (extractDialedExtension toHeader = Some ext \<longrightarrow> get reg ext = None \<longrightarrow>
        resolveDevice (Some reg) toHeader = Some (getDefault reg))
   \<and> (extractDialedExtension toHeader = None \<longrightarrow> getAllDevices reg = (firstExt, d) # rest \<longrightarrow>
        firstExt \<noteq> [] \<longrightarrow> resolveDevice (Some reg) toHeader = Some d)
   \<and> (extractDialedExtension toHeader = None \<longrightarrow> getAllDevices reg = [] \<longrightarrow>
        resolveDevice (Some reg) toHeader = Some (getDefault reg))"
proof (intro conjI impI)
  show "resolveDevice (Some reg) toHeader \<noteq> None"
    by (auto simp: resolveDevice_def selectDevice_def split: option.splits list.splits)
next
  assume "extractDialedExtension toHeader = Some ext" "get reg ext = Some d"
  then show "resolveDevice (Some reg) toHeader = Some d"
    using extractDialedExtension_nonempty [of toHeader ext]
    by (simp add: resolveDevice_def selectDevice_def)
next
  assume "extractDialedExtension toHeader = Some ext" "get reg ext = None"
  then show "resolveDevice (Some reg) toHeader = Some (getDefault reg)"
    using extractDialedExtension_nonempty [of toHeader ext]
    by (simp add: resolveDevice_def selectDevice_def)
next
  assume "extractDialedExtension toHeader = None" "getAllDevices reg = (firstExt, d) # rest"
    "firstExt \<noteq> []"
  then show "resolveDevice (Some reg) toHeader = Some d"
    by (simp add: resolveDevice_def selectDevice_def)
next
  assume "extractDialedExtension toHeader = None" "getAllDevices reg = []"
  then show "resolveDevice (Some reg) toHeader = Some (getDefault reg)"
    by (simp add: resolveDevice_def selectDevice_def)
qed

theorem resolveDevice_cases_witness:
  "resolveDevice (Some oneDevice) (Some (js ''<sip:9000@10.3.16.46>'')) = Some claudeDevice
   \<and> resolveDevice (Some oneDevice) (Some (js ''<sip:1234@10.3.16.46>'')) = Some morpheus
   \<and> resolveDevice (Some oneDevice) (Some (js ''<sip:trunk@10.3.16.46>'')) = Some claudeDevice
   \<and> resolveDevice (Some noDevices) None = Some morpheus"
proof -
  have e1: "extractDialedExtension (Some (js ''<sip:9000@10.3.16.46>'')) = Some (js ''9000'')"
    by code_simp
  have e2: "extractDialedExtension (Some (js ''<sip:1234@10.3.16.46>'')) = Some (js ''1234'')"
    by code_simp
  have e3: "extractDialedExtension (Some (js ''<sip:trunk@10.3.16.46>'')) = None"
    by code_simp
  have e4: "extractDialedExtension None = None"
    by code_simp
  have g1: "get oneDevice (js ''9000'') = Some claudeDevice"
    by (simp add: oneDevice_def)
  have g2: "get oneDevice (js ''1234'') = None"
    by (simp add: oneDevice_def js_def)
  have a1: "getAllDevices oneDevice = (js ''9000'', claudeDevice) # []" "js ''9000'' \<noteq> []"
    by (simp_all add: oneDevice_def js_def)
  have a2: "getAllDevices noDevices = []" "getDefault noDevices = morpheus"
    "getDefault oneDevice = morpheus"
    by (simp_all add: noDevices_def oneDevice_def)
  show ?thesis
    using resolveDevice_cases [of oneDevice "Some (js ''<sip:9000@10.3.16.46>'')" "js ''9000''" claudeDevice]
          resolveDevice_cases [of oneDevice "Some (js ''<sip:1234@10.3.16.46>'')" "js ''1234''"]
          resolveDevice_cases [of oneDevice "Some (js ''<sip:trunk@10.3.16.46>'')" _ claudeDevice "js ''9000''" "[]"]
          resolveDevice_cases [of noDevices None]
    by (simp add: e1 e2 e3 e4 g1 g2 a1 a2)
qed






section \<open>Properties of the conversation loop\<close>

subsection \<open>Event sequences\<close>

lemma captureAfter_append:
  "captureAfter b (xs @ ys) = captureAfter (captureAfter b xs) ys"
  by (induction b xs rule: captureAfter.induct) simp_all

lemma captureSafe_append:
  "captureSafe b (xs @ ys) = (captureSafe b xs \<and> captureSafe (captureAfter b xs) ys)"
  by (induction b xs rule: captureSafe.induct) simp_all

lemma turnNumbers_append: "turnNumbers (xs @ ys) = turnNumbers xs @ turnNumbers ys"
  by (induction xs rule: turnNumbers.induct) simp_all

lemma quiet_Nil: "quiet []"
  by (simp add: quiet_def)

lemma quiet_append: "quiet (xs @ ys) = (quiet xs \<and> quiet ys)"
  by (simp add: quiet_def)

lemma quiet_Cons: "quiet (e # es) = (plain (fst e) \<and> quiet es)"
  by (simp add: quiet_def)

lemma quiet_captureAfter: "quiet es \<Longrightarrow> captureAfter b es = b"
proof (induction es)
  case Nil
  show ?case by simp
next
  case (Cons e es)
  obtain a ok where e: "e = (a, ok)" by (cases e)
  from Cons.prems have "plain a" "quiet es" by (simp_all add: quiet_Cons e)
  with Cons.IH show ?case unfolding e by (cases a) simp_all
qed

lemma quiet_captureSafe: "quiet es \<Longrightarrow> captureSafe b es"
proof (induction es)
  case Nil
  show ?case by simp
next
  case (Cons e es)
  obtain a ok where e: "e = (a, ok)" by (cases e)
  from Cons.prems have "plain a" "quiet es" by (simp_all add: quiet_Cons e)
  with Cons.IH show ?case unfolding e by (cases a) simp_all
qed

lemma quiet_turnNumbers: "quiet es \<Longrightarrow> turnNumbers es = []"
proof (induction es)
  case Nil
  show ?case by simp
next
  case (Cons e es)
  obtain a ok where e: "e = (a, ok)" by (cases e)
  from Cons.prems have "plain a" "quiet es" by (simp_all add: quiet_Cons e)
  with Cons.IH show ?case unfolding e by (cases a) simp_all
qed

lemma plain_body: "plain a \<Longrightarrow> \<not> isCleanup a \<and> a \<noteq> ErrorLog"
  by (cases a) simp_all

lemma quiet_calm: "quiet es \<Longrightarrow> calm es"
  unfolding calm_def
proof (intro conjI allI)
  fix b assume "quiet es" then show "captureSafe b es" by (rule quiet_captureSafe)
next
  assume "quiet es"
  then show "list_all (\<lambda>e. \<not> isCleanup (fst e) \<and> fst e \<noteq> ErrorLog) es"
    unfolding quiet_def by (induction es) (simp_all add: plain_body)
qed

lemma calm_append: "calm xs \<Longrightarrow> calm ys \<Longrightarrow> calm (xs @ ys)"
  by (simp add: calm_def captureSafe_append)

lemma calm_Nil: "calm []"
  by (simp add: calm_def)

subsection \<open>Blocks that add events\<close>

lemma after_refl: "P [] \<Longrightarrow> after c c P"
  by (simp add: after_def)

lemma after_emit: "P [(a, ok)] \<Longrightarrow> after c (emit a ok c) P"
  by (simp add: after_def emit_def)

lemma after_trans:
  "after c c' P \<Longrightarrow> after c' c'' Q \<Longrightarrow> (\<And>xs ys. P xs \<Longrightarrow> Q ys \<Longrightarrow> R (xs @ ys)) \<Longrightarrow> after c c'' R"
  unfolding after_def by (metis append.assoc)

lemma after_weaken: "after c c' P \<Longrightarrow> (\<And>es. P es \<Longrightarrow> Q es) \<Longrightarrow> after c c' Q"
  unfolding after_def by blast

lemma after_pushTranscript: "after c c' P \<Longrightarrow> after c (pushTranscript r t c') P"
  by (simp add: after_def pushTranscript_def)

lemma after_pushTranscript_left: "after (pushTranscript r t c) c' P \<Longrightarrow> after c c' P"
  by (simp add: after_def pushTranscript_def)

lemma after_quiet_trans: "after c c' quiet \<Longrightarrow> after c' c'' quiet \<Longrightarrow> after c c'' quiet"
  by (erule after_trans, assumption) (simp add: quiet_append)

lemma attempt_quiet: "plain a \<Longrightarrow> after c (snd (attempt w a c)) quiet"
  by (simp add: attempt_def Let_def after_emit quiet_def)

lemma emit_quiet: "plain a \<Longrightarrow> after c (emit a ok c) quiet"
  by (simp add: after_emit quiet_def)

lemma speak_quiet: "after c (snd (speak w t v c)) quiet"
proof (cases "generateSpeech w (now c) t v")
  case None
  then show ?thesis by (simp add: speak_def emit_quiet)
next
  case (Some url)
  have "after c (emit (GenerateSpeech t v) True c) quiet" by (simp add: emit_quiet)
  moreover have "after (emit (GenerateSpeech t v) True c)
      (snd (attempt w (Play url) (emit (GenerateSpeech t v) True c))) quiet"
    by (simp add: attempt_quiet)
  ultimately show ?thesis using Some by (simp add: speak_def after_quiet_trans)
qed

lemma speak_quiet': "speak w t v c = (r, c') \<Longrightarrow> after c c' quiet"
  using speak_quiet [of c w t v] by simp

lemma respond_quiet: "after c (snd (respond w v p t c)) quiet"
proof -
  let ?ph = "THINKING_PHRASES ! (randomIndex w (now c) mod length THINKING_PHRASES)"
  obtain r c1 where s1: "speak w ?ph v c = (r, c1)" by (cases "speak w ?ph v c")
  have a1: "after c c1 quiet" using s1 by (rule speak_quiet')
  show ?thesis
  proof (cases r)
    case False
    then show ?thesis using s1 a1 by (simp add: respond_def)
  next
    case True
    let ?c2 = "snd (attempt w PlayHoldMusic c1)"
    have a2: "after c ?c2 quiet"
      using a1 attempt_quiet [of PlayHoldMusic c1 w] by (simp add: after_quiet_trans)
    show ?thesis
    proof (cases "query w (now ?c2) t p")
      case None
      have "after c (emit (Query t p) False ?c2) quiet"
        using a2 emit_quiet [of "Query t p" ?c2 False] by (simp add: after_quiet_trans)
      then show ?thesis using s1 True None by (simp add: respond_def Let_def)
    next
      case (Some resp)
      let ?c3 = "emit (Query t p) True ?c2"
      let ?c4 = "snd (attempt w UuidBreak ?c3)"
      let ?c5 = "pushTranscript Assistant (extractVoiceLine resp) ?c4"
      have a3: "after c ?c3 quiet"
        using a2 emit_quiet [of "Query t p" ?c2 True] by (simp add: after_quiet_trans)
      have a4: "after c ?c4 quiet"
        using a3 attempt_quiet [of UuidBreak ?c3 w] by (simp add: after_quiet_trans)
      have a5: "after c ?c5 quiet" using a4 by (rule after_pushTranscript)
      have a6: "after c (snd (speak w (extractVoiceLine resp) v ?c5)) quiet"
        using a5 speak_quiet [of ?c5 w "extractVoiceLine resp" v] by (rule after_quiet_trans)
      show ?thesis using s1 True Some a6
        by (simp add: respond_def Let_def orThrow_def)
    qed
  qed
qed


lemma decide_shape:
  "after c (snd (decide w v p a c)) (\<lambda>es. \<exists>ok es'. es = (Transcribe a, ok) # es' \<and> quiet es')"
proof (cases "transcribe w (now c) a")
  case None
  have "after c (emit (Transcribe a) False c)
          (\<lambda>es. \<exists>ok es'. es = (Transcribe a, ok) # es' \<and> quiet es')"
    by (rule after_emit) (auto simp: quiet_Nil)
  with None show ?thesis by (simp add: decide_def)
next
  case (Some t)
  let ?c1 = "pushTranscript User t (emit (Transcribe a) True c)"
  let ?P = "\<lambda>es. \<exists>ok es'. es = (Transcribe a, ok) # es' \<and> quiet es'"
  have a1: "after c ?c1 (\<lambda>es. es = [(Transcribe a, True)])"
    by (rule after_pushTranscript) (simp add: after_emit)
  have step: "after c c' ?P" if "after ?c1 c' quiet" for c'
    using a1 that by (rule after_trans) auto
  have s1: "after ?c1 (snd (speak w clarifyPrompt v ?c1)) quiet" by (rule speak_quiet)
  have s2: "after ?c1 (snd (speak w farewellLine v (pushTranscript Assistant farewellLine ?c1))) quiet"
    by (rule after_pushTranscript_left) (rule speak_quiet)
  have s3: "after ?c1 (snd (respond w v p t ?c1)) quiet" by (rule respond_quiet)
  show ?thesis
    using Some step [OF s1] step [OF s2] step [OF s3]
    by (auto simp add: decide_def Let_def orThrow_def)
qed


lemma turn_shape: "after c (snd (turn w v p n c)) (turnShaped n)"
proof -
  let ?c1 = "emit (TurnLog n) True c"
  let ?c2 = "snd (attempt w (Play READY_BEEP_URL) ?c1)"
  let ?c3 = "emit (SetCaptureEnabled True) True ?c2"
  let ?u = "waitForUtterance w (now ?c3)"
  let ?c4 = "emit WaitForUtterance (?u \<noteq> None) ?c3"
  let ?c5 = "emit (SetCaptureEnabled False) True ?c4"
  let ?head = "\<lambda>es. \<exists>beep heard. es = [(TurnLog n, True), (Play READY_BEEP_URL, beep),
       (SetCaptureEnabled True, True), (WaitForUtterance, heard), (SetCaptureEnabled False, True)]"
  have h: "after c ?c5 ?head"
    by (simp add: after_def emit_def attempt_def Let_def)
  show ?thesis
  proof (cases ?u)
    case None
    have "after ?c5 (snd (speak w noSpeechPrompt v ?c5)) quiet" by (rule speak_quiet)
    with h have "after c (snd (speak w noSpeechPrompt v ?c5)) (turnShaped n)"
      by (rule after_trans) (auto simp: turnShaped_def)
    then show ?thesis using None by (simp add: turn_def Let_def orThrow_def)
  next
    case (Some a)
    let ?c6 = "snd (attempt w (Play GOTIT_BEEP_URL) ?c5)"
    have g: "after ?c5 ?c6 (\<lambda>es. \<exists>gotit. es = [(Play GOTIT_BEEP_URL, gotit)])"
      by (simp add: after_def emit_def attempt_def Let_def)
    have d: "after ?c6 (snd (decide w v p a ?c6))
               (\<lambda>es. \<exists>ok es'. es = (Transcribe a, ok) # es' \<and> quiet es')"
      by (rule decide_shape)
    from g d have "after ?c5 (snd (decide w v p a ?c6))
        (\<lambda>es. \<exists>gotit a ok rest'. es = (Play GOTIT_BEEP_URL, gotit) # (Transcribe a, ok) # rest' \<and> quiet rest')"
      by (rule after_trans) auto
    with h have "after c (snd (decide w v p a ?c6)) (turnShaped n)"
      by (rule after_trans) (auto simp: turnShaped_def)
    then show ?thesis using Some by (simp add: turn_def Let_def)
  qed
qed

lemma turnShaped_captureSafe: "turnShaped n es \<Longrightarrow> captureSafe b es"
  by (auto simp: turnShaped_def captureSafe_append quiet_captureSafe)

lemma turnShaped_turnNumbers: "turnShaped n es \<Longrightarrow> turnNumbers es = [n]"
  by (auto simp: turnShaped_def turnNumbers_append quiet_turnNumbers)

lemma turnShaped_calm: "turnShaped n es \<Longrightarrow> calm es"
  unfolding calm_def
proof (intro conjI allI)
  fix b assume "turnShaped n es" then show "captureSafe b es" by (rule turnShaped_captureSafe)
next
  assume "turnShaped n es"
  then show "list_all (\<lambda>e. \<not> isCleanup (fst e) \<and> fst e \<noteq> ErrorLog) es"
    using quiet_calm by (auto simp: turnShaped_def calm_def)
qed

lemma quiet_forkless: "quiet es \<Longrightarrow> forkless es"
  unfolding quiet_def forkless_def
proof (induction es)
  case Nil
  show ?case by simp
next
  case (Cons e es)
  then have "plain (fst e)" by simp
  then have "fst e \<noteq> ForkAudioStart" by (cases "fst e") simp_all
  with Cons show ?case by simp
qed

lemma forkless_append: "forkless (xs @ ys) = (forkless xs \<and> forkless ys)"
  by (simp add: forkless_def)

lemma turnShaped_forkless: "turnShaped n es \<Longrightarrow> forkless es"
  using quiet_forkless by (auto simp: turnShaped_def forkless_def)

lemma inner_append: "inner xs \<Longrightarrow> inner ys \<Longrightarrow> inner (xs @ ys)"
  by (simp add: inner_def calm_append forkless_append)

lemma quiet_inner: "quiet es \<Longrightarrow> inner es"
  by (simp add: inner_def quiet_calm quiet_forkless)

lemma turnShaped_inner: "turnShaped n es \<Longrightarrow> inner es"
  by (simp add: inner_def turnShaped_calm turnShaped_forkless)

lemma turn_shape': "turn w v p n c = (f, c') \<Longrightarrow> after c c' (turnShaped n)"
  using turn_shape [of c w v p n] by simp

lemma turnLoop_shape:
  "turnLoop w v p k c = (f, k', c') \<Longrightarrow> k \<le> MAX_TURNS \<Longrightarrow>
     k \<le> k' \<and> k' \<le> MAX_TURNS \<and> (f = Continue \<longrightarrow> k' = MAX_TURNS) \<and>
     after c c' (\<lambda>es. inner es \<and> turnNumbers es = [Suc k..<Suc k'])"
proof (induction w v p k c arbitrary: f k' c' rule: turnLoop.induct)
  case (1 w v p k c)
  show ?case
  proof (cases "k < MAX_TURNS")
    case False
    with "1.prems" have "f = Continue" "k' = k" "c' = c" "k = MAX_TURNS"
      by (simp_all add: turnLoop.simps [of w v p k c])
    then show ?thesis by (simp add: after_refl inner_def calm_def forkless_def)
  next
    case True
    obtain fl c1 where t: "turn w v p (k + 1) c = (fl, c1)" by (cases "turn w v p (k + 1) c")
    have a1: "after c c1 (turnShaped (k + 1))" using t by (rule turn_shape')
    show ?thesis
    proof (cases fl)
      case Continue
      with True t "1.prems" have l: "turnLoop w v p (k + 1) c1 = (f, k', c')"
        by (simp add: turnLoop.simps [of w v p k c])
      have ih: "k + 1 \<le> k' \<and> k' \<le> MAX_TURNS \<and> (f = Continue \<longrightarrow> k' = MAX_TURNS) \<and>
          after c1 c' (\<lambda>es. inner es \<and> turnNumbers es = [Suc (k + 1)..<Suc k'])"
        using "1.IH" [OF True t [symmetric] Continue l] True by simp
      from a1 have "after c c' (\<lambda>es. inner es \<and> turnNumbers es = [Suc k..<Suc k'])"
      proof (rule after_trans [where Q = "\<lambda>es. inner es \<and> turnNumbers es = [Suc (k + 1)..<Suc k']"])
        show "after c1 c' (\<lambda>es. inner es \<and> turnNumbers es = [Suc (k + 1)..<Suc k'])"
          using ih by simp
      next
        fix xs ys
        assume x: "turnShaped (k + 1) xs" and y: "inner ys \<and> turnNumbers ys = [Suc (k + 1)..<Suc k']"
        have "Suc k < Suc k'" using ih by simp
        then have "[Suc k..<Suc k'] = Suc k # [Suc (k + 1)..<Suc k']"
          by (simp add: upt_conv_Cons)
        then show "inner (xs @ ys) \<and> turnNumbers (xs @ ys) = [Suc k..<Suc k']"
          using x y by (simp add: inner_append turnShaped_inner turnNumbers_append turnShaped_turnNumbers)
      qed
      with ih show ?thesis by simp
    next
      case Break
      with True t "1.prems" have "f = Break" "k' = k + 1" "c' = c1"
        by (simp_all add: turnLoop.simps [of w v p k c])
      moreover have "after c c1 (\<lambda>es. inner es \<and> turnNumbers es = [Suc k..<Suc (k + 1)])"
        using a1 by (rule after_weaken) (simp add: turnShaped_inner turnShaped_turnNumbers)
      ultimately show ?thesis using True by simp
    next
      case Throw
      with True t "1.prems" have "f = Throw" "k' = k + 1" "c' = c1"
        by (simp_all add: turnLoop.simps [of w v p k c])
      moreover have "after c c1 (\<lambda>es. inner es \<and> turnNumbers es = [Suc k..<Suc (k + 1)])"
        using a1 by (rule after_weaken) (simp add: turnShaped_inner turnShaped_turnNumbers)
      ultimately show ?thesis using True by simp
    qed
  qed
qed

subsection \<open>The try block, the handlers, the whole call\<close>

lemma speak_True:
  "speak w t v c = (True, c') \<Longrightarrow>
     \<exists>url. trace c' = trace c @ [(GenerateSpeech t v, True), (Play url, True)]"
  by (auto simp: speak_def attempt_def emit_def Let_def split: option.splits)

lemma forkless_not_started: "forkless es \<Longrightarrow> (ForkAudioStart, b) \<notin> set es"
  by (auto simp: forkless_def list_all_iff)

lemma inner_not_started: "inner es \<Longrightarrow> (ForkAudioStart, b) \<notin> set es"
  by (simp add: inner_def forkless_not_started)

lemma calm_fork_events:
  "calm [(ExpectSession, True), (ForkAudioStart, r)]"
  "calm [(ExpectSession, True), (ForkAudioStart, r), (AwaitSession, r')]"
  by (simp_all add: calm_def)

lemma inner_calm: "inner es \<Longrightarrow> calm es"
  by (simp add: inner_def)

lemma inner_turnNumbers_quiet: "quiet es \<Longrightarrow> turnNumbers es = []"
  by (rule quiet_turnNumbers)

lemma tryBlock_shape:
  assumes "tryBlock w dc c0 = (ok, c1)"
  shows "\<exists>es. trace c1 = trace c0 @ es \<and> tryShaped dc ok (forkRunning c0) (forkRunning c1) es"
proof -
  let ?v = "voiceOf dc"
  obtain r1 d1 where g: "speak w (greeting dc) ?v c0 = (r1, d1)"
    by (cases "speak w (greeting dc) ?v c0")
  from speak_quiet' [OF g] obtain e1 where
    e1: "trace d1 = trace c0 @ e1" "quiet e1" "forkRunning d1 = forkRunning c0"
    unfolding after_def by blast
  have q1: "calm e1" "turnNumbers e1 = []" "(ForkAudioStart, True) \<notin> set e1"
    using e1(2) by (simp_all add: quiet_calm quiet_turnNumbers quiet_forkless forkless_not_started)
  show ?thesis
  proof (cases r1)
    case False
    with g assms have "ok = False" "c1 = d1" by (simp_all add: tryBlock_def)
    then show ?thesis using e1 q1 by (auto simp: tryShaped_def intro!: exI [of _ 0])
  next
    case r1: True
    let ?d2 = "emit ExpectSession True d1"
    let ?r2 = "completes w (now ?d2) ForkAudioStart"
    let ?d3 = "emit ForkAudioStart ?r2 ?d2"
    have a2: "attempt w ForkAudioStart ?d2 = (?r2, ?d3)" by (simp add: attempt_def Let_def)
    have t3: "trace ?d3 = trace c0 @ e1 @ [(ExpectSession, True), (ForkAudioStart, ?r2)]"
      "forkRunning ?d3 = forkRunning c0"
      using e1 by (simp_all add: emit_def)
    have c3: "calm (e1 @ [(ExpectSession, True), (ForkAudioStart, ?r2)])"
      using q1(1) by (simp add: calm_append calm_fork_events)
    show ?thesis
    proof (cases ?r2)
      case False
      with g r1 a2 assms have "ok = False" "c1 = ?d3" by (simp_all add: tryBlock_def)
      then show ?thesis using t3 c3 q1 False
        by (auto simp: tryShaped_def turnNumbers_append intro!: exI [of _ 0])
    next
      case r2: True
      let ?d4 = "?d3\<lparr>forkRunning := True\<rparr>"
      let ?r3 = "completes w (now ?d4) AwaitSession"
      let ?d5 = "emit AwaitSession ?r3 ?d4"
      define pre where "pre = e1 @ [(ExpectSession, True), (ForkAudioStart, True), (AwaitSession, ?r3)]"
      have a3: "attempt w AwaitSession ?d4 = (?r3, ?d5)" by (simp add: attempt_def Let_def)
      have t5: "trace ?d5 = trace c0 @ pre" "forkRunning ?d5 = True"
        using e1 r2 by (simp_all add: emit_def pre_def)
      have c5: "calm pre" "turnNumbers pre = []" "(ForkAudioStart, True) \<in> set pre"
        using q1 by (simp_all add: calm_append calm_fork_events turnNumbers_append pre_def)
      show ?thesis
      proof (cases ?r3)
        case False
        with g r1 a2 r2 a3 assms have "ok = False" "c1 = ?d5" by (simp_all add: tryBlock_def)
        then show ?thesis using t5 c5
          by (auto simp: tryShaped_def intro!: exI [of _ 0])
      next
        case r3: True
        let ?d6 = "?d5\<lparr>session := True\<rparr>"
        obtain f n d7 where l: "turnLoop w ?v (promptOf dc) 0 ?d6 = (f, n, d7)"
          by (cases "turnLoop w ?v (promptOf dc) 0 ?d6")
        from turnLoop_shape [OF l] obtain e2 where
          e2: "n \<le> MAX_TURNS" "trace d7 = trace ?d6 @ e2" "inner e2"
              "turnNumbers e2 = [1..<Suc n]" "forkRunning d7 = forkRunning ?d6"
          unfolding after_def by auto
        have t7: "trace d7 = trace c0 @ pre @ e2" "forkRunning d7 = True"
          using e2 t5 by simp_all
        have c7: "calm (pre @ e2)" "turnNumbers (pre @ e2) = [1..<Suc n]"
          "(ForkAudioStart, True) \<in> set (pre @ e2)"
          using c5 e2 by (simp_all add: calm_append inner_calm turnNumbers_append del: upt_Suc)
        show ?thesis
        proof (cases "f = Throw")
          case True
          with g r1 a2 r2 a3 r3 l assms have "ok = False" "c1 = d7" by (simp_all add: tryBlock_def)
          then show ?thesis using t7 c7 e2(1)
            unfolding tryShaped_def by (intro exI [of _ "pre @ e2"] conjI exI [of _ n]) simp_all
        next
          case nt: False
          show ?thesis
          proof (cases "n \<ge> MAX_TURNS")
            case False
            with g r1 a2 r2 a3 r3 l nt assms have "ok = True" "c1 = d7"
              by (cases f; simp add: tryBlock_def)+
            then show ?thesis using t7 c7 e2(1) False
              unfolding tryShaped_def by (intro exI [of _ "pre @ e2"] conjI exI [of _ n]) simp_all
          next
            case True
            with g r1 a2 r2 a3 r3 l nt assms
            have s: "speak w closingLine ?v d7 = (ok, c1)"
              by (cases f; simp add: tryBlock_def)
            from speak_quiet' [OF s] obtain e3 where
              e3: "trace c1 = trace d7 @ e3" "quiet e3" "forkRunning c1 = forkRunning d7"
              unfolding after_def by blast
            have fin: "\<exists>pre' url. pre @ e2 @ e3 =
                pre' @ [(GenerateSpeech closingLine ?v, True), (Play url, True)]" if "ok"
            proof -
              from that s have "speak w closingLine ?v d7 = (True, c1)" by simp
              from speak_True [OF this] obtain url where
                "trace c1 = trace d7 @ [(GenerateSpeech closingLine ?v, True), (Play url, True)]"
                by blast
              with e3(1) have "e3 = [(GenerateSpeech closingLine ?v, True), (Play url, True)]"
                by simp
              then show ?thesis by (metis append.assoc)
            qed
            have c8: "calm (pre @ e2 @ e3)" "turnNumbers (pre @ e2 @ e3) = [1..<Suc n]"
              "(ForkAudioStart, True) \<in> set (pre @ e2 @ e3)"
              using c5 e2 e3(2)
              by (simp_all add: calm_append inner_calm quiet_calm turnNumbers_append
                    quiet_turnNumbers del: upt_Suc)
            have t8: "trace c1 = trace c0 @ pre @ e2 @ e3" "forkRunning c1 = True"
              using e3 t7 by simp_all
            show ?thesis using t8 c8 e2(1) fin
              unfolding tryShaped_def
              by (intro exI [of _ "pre @ e2 @ e3"] conjI exI [of _ n]) simp_all
          qed
        qed
      qed
    qed
  qed
qed

lemma catchBlock_shape:
  "\<exists>hs. trace (catchBlock w v c) = trace c @ hs \<and> handlerShaped False hs \<and>
        forkRunning (catchBlock w v c) = forkRunning c"
proof -
  let ?c1 = "emit ErrorLog True c"
  let ?c2 = "if session ?c1 then emit (SetCaptureEnabled False) True ?c1 else ?c1"
  let ?cap = "if session c then [(SetCaptureEnabled False, True)] else []"
  have t2: "trace ?c2 = trace c @ (ErrorLog, True) # ?cap" "forkRunning ?c2 = forkRunning c"
    by (simp_all add: emit_def)
  from speak_quiet [of ?c2 w apologyLine v] obtain e where
    e: "trace (snd (speak w apologyLine v ?c2)) = trace ?c2 @ e" "quiet e"
       "forkRunning (snd (speak w apologyLine v ?c2)) = forkRunning ?c2"
    unfolding after_def by blast
  have "trace (catchBlock w v c) = trace c @ ((ErrorLog, True) # ?cap @ e)"
    using e(1) t2(1) by (simp add: catchBlock_def Let_def)
  moreover have "handlerShaped False ((ErrorLog, True) # ?cap @ e)"
    unfolding handlerShaped_def using e(2)
    by (simp only: if_False) (intro exI [of _ ?cap] exI [of _ e], simp)
  moreover have "forkRunning (catchBlock w v c) = forkRunning c"
    using e(3) t2(2) by (simp add: catchBlock_def Let_def)
  ultimately show ?thesis by blast
qed

lemma finallyBlock_shape:
  "\<exists>fin. trace (finallyBlock w c) = trace c @ fin \<and> map fst fin = cleanupActions c \<and>
         forkRunning (finallyBlock w c) = forkRunning c \<and>
         callTranscript (finallyBlock w c) = callTranscript c"
  by (simp add: finallyBlock_def cleanupActions_def attempt_def emit_def Let_def)

lemma cleanupActions_final:
  "forkRunning c' = forkRunning c \<Longrightarrow> callTranscript c' = callTranscript c \<Longrightarrow>
     cleanupActions c' = cleanupActions c"
  by (simp add: cleanupActions_def)

text \<open>The whole call: the start notification, the try block, the handler, the cleanup.\<close>

lemma conversationLoop_shape:
  "\<exists>r0 ok es hs fin.
     trace (conversationLoop w dc) = (WebhookStart, r0) # es @ hs @ fin \<and>
     tryShaped dc ok False (forkRunning (conversationLoop w dc)) es \<and>
     handlerShaped ok hs \<and>
     map fst fin = cleanupActions (conversationLoop w dc)"
proof -
  let ?c0 = "snd (attempt w WebhookStart newCall)"
  let ?r0 = "completes w 0 WebhookStart"
  have t0: "trace ?c0 = [(WebhookStart, ?r0)]" "forkRunning ?c0 = False"
    by (simp_all add: attempt_def emit_def newCall_def now_def Let_def)
  obtain ok c1 where tb: "tryBlock w dc ?c0 = (ok, c1)" by (cases "tryBlock w dc ?c0")
  from tryBlock_shape [OF tb] obtain es where
    es: "trace c1 = trace ?c0 @ es" "tryShaped dc ok (forkRunning ?c0) (forkRunning c1) es"
    by blast
  show ?thesis
  proof (cases ok)
    case True
    from finallyBlock_shape [of w c1] obtain fin where
      fin: "trace (finallyBlock w c1) = trace c1 @ fin" "map fst fin = cleanupActions c1"
           "forkRunning (finallyBlock w c1) = forkRunning c1"
           "callTranscript (finallyBlock w c1) = callTranscript c1"
      by blast
    have cl: "conversationLoop w dc = finallyBlock w c1"
      using tb True by (simp add: conversationLoop_def Let_def)
    have "trace (conversationLoop w dc) = (WebhookStart, ?r0) # es @ [] @ fin"
      using cl fin(1) es(1) t0(1) by simp
    moreover have "tryShaped dc ok False (forkRunning (conversationLoop w dc)) es"
      using es(2) t0(2) cl fin(3) by simp
    moreover have "handlerShaped ok []" using True by (simp add: handlerShaped_def)
    moreover have "map fst fin = cleanupActions (conversationLoop w dc)"
      using fin(2) cl cleanupActions_final [OF fin(3) fin(4)] by simp
    ultimately show ?thesis by blast
  next
    case False
    let ?c2 = "catchBlock w (voiceOf dc) c1"
    from catchBlock_shape [of w "voiceOf dc" c1] obtain hs where
      hs: "trace ?c2 = trace c1 @ hs" "handlerShaped False hs" "forkRunning ?c2 = forkRunning c1"
      by blast
    from finallyBlock_shape [of w ?c2] obtain fin where
      fin: "trace (finallyBlock w ?c2) = trace ?c2 @ fin" "map fst fin = cleanupActions ?c2"
           "forkRunning (finallyBlock w ?c2) = forkRunning ?c2"
           "callTranscript (finallyBlock w ?c2) = callTranscript ?c2"
      by blast
    have cl: "conversationLoop w dc = finallyBlock w ?c2"
      using tb False by (simp add: conversationLoop_def Let_def)
    have "trace (conversationLoop w dc) = (WebhookStart, ?r0) # es @ hs @ fin"
      using cl fin(1) hs(1) es(1) t0(1) by simp
    moreover have "tryShaped dc ok False (forkRunning (conversationLoop w dc)) es"
      using es(2) t0(2) cl fin(3) hs(3) by simp
    moreover have "handlerShaped ok hs" using False hs(2) by simp
    moreover have "map fst fin = cleanupActions (conversationLoop w dc)"
      using fin(2) cl cleanupActions_final [OF fin(3) fin(4)] by simp
    ultimately show ?thesis by blast
  qed
qed

subsection \<open>The claims\<close>

lemma calm_captureSafe: "calm es \<Longrightarrow> captureSafe b es"
  by (simp add: calm_def)

lemma calm_no_cleanup: "calm es \<Longrightarrow> filter isCleanup (map fst es) = []"
proof -
  assume "calm es"
  then have "list_all (\<lambda>e. \<not> isCleanup (fst e) \<and> fst e \<noteq> ErrorLog) es"
    by (simp add: calm_def)
  then show ?thesis by (induction es) simp_all
qed

lemma calm_no_ErrorLog: "calm es \<Longrightarrow> (ErrorLog, b) \<notin> set es"
  by (auto simp: calm_def list_all_iff)

lemma quiet_no_cleanup: "quiet es \<Longrightarrow> filter isCleanup (map fst es) = []"
  by (rule calm_no_cleanup) (rule quiet_calm)

lemma handlerShaped_captureSafe: "handlerShaped ok hs \<Longrightarrow> captureSafe b hs"
  by (auto simp: handlerShaped_def captureSafe_append quiet_captureSafe split: if_splits)

lemma handlerShaped_no_cleanup: "handlerShaped ok hs \<Longrightarrow> filter isCleanup (map fst hs) = []"
  by (auto simp: handlerShaped_def quiet_no_cleanup split: if_splits)


lemma handlerShaped_not_started: "handlerShaped ok hs \<Longrightarrow> (ForkAudioStart, b) \<notin> set hs"
  using quiet_forkless forkless_not_started
  by (auto simp: handlerShaped_def split: if_splits)


lemma all_cleanup_captureSafe: "list_all isCleanup (map fst fin) \<Longrightarrow> captureSafe b fin"
proof (induction fin)
  case Nil
  show ?case by simp
next
  case (Cons e fin)
  obtain a ok where e: "e = (a, ok)" by (cases e)
  from Cons.prems have "isCleanup a" "list_all isCleanup (map fst fin)" by (simp_all add: e)
  with Cons.IH show ?case unfolding e by (cases a) simp_all
qed


lemma all_cleanup_members: "list_all isCleanup (map fst fin) \<Longrightarrow> (a, b) \<in> set fin \<Longrightarrow> isCleanup a"
  by (auto simp: list_all_iff)

lemma cleanupActions_all: "list_all isCleanup (cleanupActions c)"
  by (simp add: cleanupActions_def)

lemma cleanupActions_filter: "filter isCleanup (cleanupActions c) = cleanupActions c"
  by (simp add: cleanupActions_def)


text \<open>
  C7.  Whatever the collaborators answer, and whatever the capture flag was when the call
  began, the trace of a call never holds a transcription call while capture is enabled:
  in every turn that reaches the transcription, \<^verbatim>\<open>setCaptureEnabled(false)\<close> comes
  first.
\<close>

theorem capture_disabled_before_transcription:
  "captureSafe b (trace (conversationLoop w dc))"
proof -
  obtain r0 ok es hs fin where
    s: "trace (conversationLoop w dc) = (WebhookStart, r0) # es @ hs @ fin"
       "tryShaped dc ok False (forkRunning (conversationLoop w dc)) es"
       "handlerShaped ok hs"
       "map fst fin = cleanupActions (conversationLoop w dc)"
    using conversationLoop_shape [of w dc] by blast
  have "calm es" using s(2) by (auto simp: tryShaped_def)
  then have 1: "captureSafe b' es" for b' by (rule calm_captureSafe)
  have 2: "captureSafe b' hs" for b' using s(3) by (rule handlerShaped_captureSafe)
  have "list_all isCleanup (map fst fin)" unfolding s(4) by (rule cleanupActions_all)
  then have 3: "captureSafe b' fin" for b' by (rule all_cleanup_captureSafe)
  show ?thesis unfolding s(1) by (simp add: captureSafe_append 1 2 3)
qed

text \<open>
  C8.  However the \<^verbatim>\<open>try\<close> block ends and whichever cleanup steps fail, the
  cleanup events of a call are exactly these, once each, in this order and at the very
  end of the trace: the log line, the release of the query session, the stop of the
  audio fork (present exactly when the fork had been started), the transcript of the
  whole call sent to the webhook, and the release of the dialog.
\<close>

theorem cleanup_runs_once_and_whole:
  "filter isCleanup (map fst (trace (conversationLoop w dc))) =
     cleanupActions (conversationLoop w dc)
   \<and> suffix (cleanupActions (conversationLoop w dc)) (map fst (trace (conversationLoop w dc)))
   \<and> (forkRunning (conversationLoop w dc) =
        ((ForkAudioStart, True) \<in> set (trace (conversationLoop w dc))))"
proof -
  let ?c = "conversationLoop w dc"
  obtain r0 ok es hs fin where
    s: "trace ?c = (WebhookStart, r0) # es @ hs @ fin"
       "tryShaped dc ok False (forkRunning ?c) es"
       "handlerShaped ok hs"
       "map fst fin = cleanupActions ?c"
    using conversationLoop_shape [of w dc] by blast
  have calm: "calm es" and fr: "forkRunning ?c = ((ForkAudioStart, True) \<in> set es)"
    using s(2) by (auto simp: tryShaped_def)
  have m: "map fst (trace ?c) = WebhookStart # map fst es @ map fst hs @ cleanupActions ?c"
    unfolding s(1) by (simp add: s(4))
  have 1: "filter isCleanup (map fst (trace ?c)) = cleanupActions ?c"
    unfolding m
    by (simp add: calm_no_cleanup [OF calm] handlerShaped_no_cleanup [OF s(3)] cleanupActions_filter)
  have 2: "suffix (cleanupActions ?c) (map fst (trace ?c))"
    unfolding m suffix_def by (intro exI [of _ "WebhookStart # map fst es @ map fst hs"]) simp
  have "(ForkAudioStart, True) \<notin> set hs" using s(3) by (rule handlerShaped_not_started)
  moreover have "(ForkAudioStart, True) \<notin> set fin"
  proof
    assume "(ForkAudioStart, True) \<in> set fin"
    moreover have "list_all isCleanup (map fst fin)" unfolding s(4) by (rule cleanupActions_all)
    ultimately have "isCleanup ForkAudioStart" by (rule all_cleanup_members [rotated])
    then show False by simp
  qed
  ultimately have 3: "forkRunning ?c = ((ForkAudioStart, True) \<in> set (trace ?c))"
    unfolding s(1) using fr by simp
  from 1 2 3 show ?thesis by (intro conjI)
qed




subsection \<open>Calls in which the caller never speaks\<close>




lemma silent_turn:
  assumes "silentUntil w T" and "now c + 7 \<le> T"
  shows "turn w v p n c = (Continue, addEvents (silentEvents v n) c)"
proof -
  have u: "waitForUtterance w t = None" if "t < T" for t
    using assms(1) that by (simp add: silentUntil_def)
  have g: "generateSpeech w t x y = Some (js ''tts.mp3'')" if "t < T" for t x y
    using assms(1) that by (simp add: silentUntil_def)
  have q: "completes w t a" if "t < T" for t a
    using assms(1) that by (simp add: silentUntil_def)
  have n: "now (c\<lparr>trace := trace c @ es\<rparr>) = now c + length es" for es
    by (simp add: now_def)
  show ?thesis
    using assms(2)
    by (simp add: turn_def Let_def speak_def attempt_def orThrow_def emit_def n u g q
          addEvents_def silentEvents_def)
qed



lemma silentWorld_silent: "silentUntil silentWorld T"
  by (simp add: silentUntil_def silentWorld_def)



lemma prelude_works:
  assumes "generateSpeech w (Suc 0) (greeting None) DEFAULT_VOICE_ID = Some (js ''tts.mp3'')"
    and "\<And>t a. t < 6 \<Longrightarrow> completes w t a"
  shows "tryBlock w None (snd (attempt w WebhookStart newCall)) =
     (case turnLoop w DEFAULT_VOICE_ID None 0 atLoopStart of
        (Throw, turnCount, c4) \<Rightarrow> (False, c4)
      | (_, turnCount, c4) \<Rightarrow>
          if turnCount \<ge> MAX_TURNS then speak w closingLine DEFAULT_VOICE_ID c4 else (True, c4))"
proof -
  have v: "voiceOf None = DEFAULT_VOICE_ID" "promptOf None = None"
    by (simp_all add: voiceOf_def promptOf_def)
  show ?thesis
    unfolding tryBlock_def v
    by (simp add: speak_def attempt_def emit_def now_def newCall_def Let_def
          assms atLoopStart_def preludeEvents_def)
qed


lemma voiceOf_None: "voiceOf None = DEFAULT_VOICE_ID"
  by (simp add: voiceOf_def)

lemma finallyBlock_trace:
  "(\<And>t a. completes w t a) \<Longrightarrow>
   trace (finallyBlock w c) =
     trace c @ [(CleanupLog, True), (EndSession, True)] @
     (if forkRunning c then [(ForkAudioStop, True)] else []) @
     [(SendTranscript (length (callTranscript c)) (transcriptText (callTranscript c)), True),
      (DialogDestroy, True)]"
  by (simp add: finallyBlock_def attempt_def emit_def Let_def)

lemma speak_ok:
  "generateSpeech w (now c) t v = Some u \<Longrightarrow> completes w (Suc (now c)) (Play u) \<Longrightarrow>
     speak w t v c = (True, addEvents [(GenerateSpeech t v, True), (Play u, True)] c)"
  by (simp add: speak_def attempt_def emit_def Let_def addEvents_def now_def)

lemma speak_failed:
  "generateSpeech w (now c) t v = None \<Longrightarrow>
     speak w t v c = (False, addEvents [(GenerateSpeech t v, False)] c)"
  by (simp add: speak_def emit_def addEvents_def)



lemma fields_addEvents:
  "session (addEvents es c) = session c" "forkRunning (addEvents es c) = forkRunning c"
  "callTranscript (addEvents es c) = callTranscript c" "trace (addEvents es c) = trace c @ es"
  by (simp_all add: addEvents_def)

lemma silent_turn_failing:
  assumes "waitForUtterance w (Suc (Suc (Suc (now c)))) = None"
    and "completes w (Suc (now c)) (Play READY_BEEP_URL)"
    and "generateSpeech w (Suc (Suc (Suc (Suc (Suc (now c)))))) noSpeechPrompt v = None"
  shows "turn w v p n c =
     (Throw, addEvents [(TurnLog n, True), (Play READY_BEEP_URL, True),
        (SetCaptureEnabled True, True), (WaitForUtterance, False),
        (SetCaptureEnabled False, True), (GenerateSpeech noSpeechPrompt v, False)] c)"
proof -
  have n: "now (c\<lparr>trace := trace c @ es\<rparr>) = now c + length es" for es
    by (simp add: now_def)
  show ?thesis
    using assms
    by (simp add: turn_def Let_def speak_def attempt_def orThrow_def emit_def n addEvents_def)
qed



lemma lines_differ:
  "closingLine \<noteq> noSpeechPrompt" "closingLine \<noteq> apologyLine" "closingLine \<noteq> greeting None"
  by (simp_all add: closingLine_def noSpeechPrompt_def apologyLine_def greeting_def js_def)


lemma ErrorLog_not_in_silent: "(ErrorLog, b) \<notin> set (concat (map (silentEvents v) ns))"
  by (auto simp: silentEvents_def)

lemma closing_not_in_silent:
  "(GenerateSpeech closingLine v, b) \<notin> set (concat (map (silentEvents v) ns))"
  by (auto simp: silentEvents_def lines_differ)



subsection \<open>The turn limit and the timeout\<close>


lemma quiet_no_wait: "quiet es \<Longrightarrow> (WaitForUtterance, b) \<notin> set es"
  by (auto simp: quiet_def list_all_iff)

lemma speak_cases:
  "(speak w t v c = (False, addEvents [(GenerateSpeech t v, False)] c))
   \<or> (\<exists>url. speak w t v c = (False, addEvents [(GenerateSpeech t v, True), (Play url, False)] c))
   \<or> (\<exists>url. speak w t v c = (True, addEvents [(GenerateSpeech t v, True), (Play url, True)] c))"
proof (cases "generateSpeech w (now c) t v")
  case None
  then show ?thesis by (simp add: speak_failed)
next
  case (Some url)
  show ?thesis
  proof (cases "completes w (Suc (now c)) (Play url)")
    case True
    with Some have "speak w t v c =
        (True, addEvents [(GenerateSpeech t v, True), (Play url, True)] c)"
      by (simp add: speak_ok)
    then show ?thesis by blast
  next
    case False
    with Some have "speak w t v c =
        (False, addEvents [(GenerateSpeech t v, True), (Play url, False)] c)"
      by (simp add: speak_def attempt_def emit_def Let_def addEvents_def now_def)
    then show ?thesis by blast
  qed
qed

text \<open>
  C4, amended.  When the wait for an utterance fails in an iteration, the failure stays
  inside the iteration: the iteration has logged its turn number, capture is disabled
  next, and the synthesis of the prompt is requested.  Then either the prompt is
  synthesised and played and the loop goes on from its head with the counter
  incremented, or the synthesis or the playback fails and that error leaves the loop by
  a throw, at the incremented counter.
\<close>

theorem timeout_is_caught_in_the_turn:
  assumes "k < MAX_TURNS"
    and "(WaitForUtterance, False) \<in> set (iteration w v p (Suc k) c)"
  shows "\<exists>beep.
     take 5 (iteration w v p (Suc k) c) =
       [(TurnLog (Suc k), True), (Play READY_BEEP_URL, beep), (SetCaptureEnabled True, True),
        (WaitForUtterance, False), (SetCaptureEnabled False, True)]
     \<and> ((drop 5 (iteration w v p (Suc k) c) = [(GenerateSpeech noSpeechPrompt v, False)]
          \<and> turnLoop w v p k c = (Throw, Suc k, snd (turn w v p (Suc k) c)))
        \<or> (\<exists>url. drop 5 (iteration w v p (Suc k) c) =
                    [(GenerateSpeech noSpeechPrompt v, True), (Play url, False)]
          \<and> turnLoop w v p k c = (Throw, Suc k, snd (turn w v p (Suc k) c)))
        \<or> (\<exists>url. drop 5 (iteration w v p (Suc k) c) =
                    [(GenerateSpeech noSpeechPrompt v, True), (Play url, True)]
          \<and> turnLoop w v p k c = turnLoop w v p (Suc k) (snd (turn w v p (Suc k) c))))"
proof -
  let ?n = "Suc k"
  let ?c1 = "emit (TurnLog ?n) True c"
  let ?beep = "completes w (now ?c1) (Play READY_BEEP_URL)"
  let ?c3 = "emit (SetCaptureEnabled True) True (snd (attempt w (Play READY_BEEP_URL) ?c1))"
  let ?u = "waitForUtterance w (now ?c3)"
  let ?c5 = "emit (SetCaptureEnabled False) True (emit WaitForUtterance (?u \<noteq> None) ?c3)"
  let ?head = "[(TurnLog ?n, True), (Play READY_BEEP_URL, ?beep), (SetCaptureEnabled True, True),
        (WaitForUtterance, ?u \<noteq> None), (SetCaptureEnabled False, True)]"
  have c5: "?c5 = addEvents ?head c"
    by (simp add: emit_def attempt_def Let_def addEvents_def)
  have none: "?u = None"
  proof (rule ccontr)
    assume "?u \<noteq> None"
    then obtain a where a: "?u = Some a" by blast
    let ?c6 = "snd (attempt w (Play GOTIT_BEEP_URL) ?c5)"
    have t: "turn w v p ?n c = decide w v p a ?c6"
      using a by (simp add: turn_def Let_def)
    from decide_shape [of ?c6 w v p a] obtain ok es' where
      d: "trace (snd (decide w v p a ?c6)) = trace ?c6 @ (Transcribe a, ok) # es'" "quiet es'"
      unfolding after_def by blast
    have "trace ?c6 = trace c @ ?head @ [(Play GOTIT_BEEP_URL, completes w (now ?c5) (Play GOTIT_BEEP_URL))]"
      unfolding c5 by (simp add: attempt_def emit_def Let_def addEvents_def)
    with d(1) t have "iteration w v p ?n c =
        ?head @ (Play GOTIT_BEEP_URL, completes w (now ?c5) (Play GOTIT_BEEP_URL)) #
        (Transcribe a, ok) # es'"
      by (simp add: iteration_def now_def)
    with assms(2) a have "(WaitForUtterance, False) \<in> set es'" by auto
    with d(2) show False by (simp add: quiet_no_wait)
  qed
  have t: "turn w v p ?n c = orThrow Continue (speak w noSpeechPrompt v (addEvents ?head c))"
    using none c5 by (simp add: turn_def Let_def)
  have it: "iteration w v p ?n c = ?head @ es"
    if "snd (speak w noSpeechPrompt v (addEvents ?head c)) = addEvents es (addEvents ?head c)" for es
    using that by (simp add: iteration_def t orThrow_def now_def addEvents_def)
  have loop: "turnLoop w v p k c =
     (case turn w v p ?n c of
        (Continue, c') \<Rightarrow> turnLoop w v p ?n c'
      | (Break, c') \<Rightarrow> (Break, ?n, c')
      | (Throw, c') \<Rightarrow> (Throw, ?n, c'))"
    using assms(1) unfolding Suc_eq_plus1 by (simp add: turnLoop.simps [of w v p k c])
  from speak_cases [of w noSpeechPrompt v "addEvents ?head c"]
  show ?thesis
  proof (elim disjE exE)
    assume s: "speak w noSpeechPrompt v (addEvents ?head c) =
        (False, addEvents [(GenerateSpeech noSpeechPrompt v, False)] (addEvents ?head c))"
    have "iteration w v p ?n c = ?head @ [(GenerateSpeech noSpeechPrompt v, False)]"
      by (rule it) (simp only: s snd_conv)
    moreover have "turnLoop w v p k c = (Throw, ?n, snd (turn w v p ?n c))"
      unfolding loop t s by (simp add: orThrow_def)
    ultimately show ?thesis using none by simp
  next
    fix url
    assume s: "speak w noSpeechPrompt v (addEvents ?head c) =
        (False, addEvents [(GenerateSpeech noSpeechPrompt v, True), (Play url, False)]
                  (addEvents ?head c))"
    have "iteration w v p ?n c = ?head @ [(GenerateSpeech noSpeechPrompt v, True), (Play url, False)]"
      by (rule it) (simp only: s snd_conv)
    moreover have "turnLoop w v p k c = (Throw, ?n, snd (turn w v p ?n c))"
      unfolding loop t s by (simp add: orThrow_def)
    ultimately show ?thesis using none by simp
  next
    fix url
    assume s: "speak w noSpeechPrompt v (addEvents ?head c) =
        (True, addEvents [(GenerateSpeech noSpeechPrompt v, True), (Play url, True)]
                 (addEvents ?head c))"
    have "iteration w v p ?n c = ?head @ [(GenerateSpeech noSpeechPrompt v, True), (Play url, True)]"
      by (rule it) (simp only: s snd_conv)
    moreover have "turnLoop w v p k c = turnLoop w v p ?n (snd (turn w v p ?n c))"
      unfolding loop t s by (simp add: orThrow_def)
    ultimately show ?thesis using none by simp
  qed
qed


lemma prompts_differ:
  "greeting None \<noteq> noSpeechPrompt" "apologyLine \<noteq> noSpeechPrompt"
  by (simp_all add: noSpeechPrompt_def apologyLine_def greeting_def js_def)

lemma failed_turn:
  "turn failedPrompt DEFAULT_VOICE_ID None n atLoopStart =
     (Throw, addEvents [(TurnLog n, True), (Play READY_BEEP_URL, True),
        (SetCaptureEnabled True, True), (WaitForUtterance, False),
        (SetCaptureEnabled False, True),
        (GenerateSpeech noSpeechPrompt DEFAULT_VOICE_ID, False)] atLoopStart)"
  by (rule silent_turn_failing) (simp_all add: failedPrompt_def silentWorld_def)

text \<open>
  C4, as the claim states it, fails when the prompt cannot be synthesised.  In the world
  \<open>failedPrompt\<close> the first wait times out and the synthesis of the prompt is
  rejected: no prompt is played, the loop is left by a throw and never returns to its
  head, and the call ends through the error handler.
\<close>

theorem timeout_prompt_fails_counterexample:
  "iteration failedPrompt DEFAULT_VOICE_ID None 1 atLoopStart =
     [(TurnLog 1, True), (Play READY_BEEP_URL, True), (SetCaptureEnabled True, True),
      (WaitForUtterance, False), (SetCaptureEnabled False, True),
      (GenerateSpeech noSpeechPrompt DEFAULT_VOICE_ID, False)]
   \<and> fst (turnLoop failedPrompt DEFAULT_VOICE_ID None 0 atLoopStart) = Throw
   \<and> trace (conversationLoop failedPrompt None) =
     preludeEvents @
     [(TurnLog 1, True), (Play READY_BEEP_URL, True), (SetCaptureEnabled True, True),
      (WaitForUtterance, False), (SetCaptureEnabled False, True),
      (GenerateSpeech noSpeechPrompt DEFAULT_VOICE_ID, False),
      (ErrorLog, True), (SetCaptureEnabled False, True),
      (GenerateSpeech apologyLine DEFAULT_VOICE_ID, True), (Play (js ''tts.mp3''), True),
      (CleanupLog, True), (EndSession, True), (ForkAudioStop, True),
      (SendTranscript 0 [], True), (DialogDestroy, True)]"
proof -
  let ?v = DEFAULT_VOICE_ID
  let ?t1 = "[(TurnLog (Suc 0), True), (Play READY_BEEP_URL, True), (SetCaptureEnabled True, True),
      (WaitForUtterance, False), (SetCaptureEnabled False, True),
      (GenerateSpeech noSpeechPrompt ?v, False)]"
  have a: "iteration failedPrompt ?v None (Suc 0) atLoopStart = ?t1"
    by (simp add: iteration_def failed_turn now_def fields_addEvents)
  have l: "turnLoop failedPrompt ?v None 0 atLoopStart = (Throw, Suc 0, addEvents ?t1 atLoopStart)"
    by (simp add: turnLoop.simps [of _ _ _ 0] MAX_TURNS_def failed_turn)
  have tb: "tryBlock failedPrompt None (snd (attempt failedPrompt WebhookStart newCall)) =
      (False, addEvents ?t1 atLoopStart)"
  proof -
    have g: "generateSpeech failedPrompt (Suc 0) (greeting None) DEFAULT_VOICE_ID =
        Some (js ''tts.mp3'')"
      by (simp add: failedPrompt_def silentWorld_def prompts_differ)
    have c: "completes failedPrompt t a" for t a by (simp add: failedPrompt_def silentWorld_def)
    show ?thesis
      unfolding prelude_works [of failedPrompt, OF g c] l by simp
  qed
  have cb: "catchBlock failedPrompt ?v (addEvents ?t1 atLoopStart) =
      addEvents [(ErrorLog, True), (SetCaptureEnabled False, True),
                 (GenerateSpeech apologyLine ?v, True), (Play (js ''tts.mp3''), True)]
        (addEvents ?t1 atLoopStart)"
  proof -
    let ?c2 = "addEvents [(ErrorLog, True), (SetCaptureEnabled False, True)] (addEvents ?t1 atLoopStart)"
    have "speak failedPrompt apologyLine ?v ?c2 =
        (True, addEvents [(GenerateSpeech apologyLine ?v, True), (Play (js ''tts.mp3''), True)] ?c2)"
      by (rule speak_ok) (simp_all add: failedPrompt_def silentWorld_def prompts_differ)
    moreover have "session (addEvents ?t1 atLoopStart)"
      by (simp add: fields_addEvents atLoopStart_def)
    ultimately show ?thesis
      by (simp add: catchBlock_def Let_def emit_def addEvents_def)
  qed
  have c: "completes failedPrompt t a" for t a by (simp add: failedPrompt_def silentWorld_def)
  have tt: "transcriptText [] = []" by (simp add: transcriptText_def)
  have ta: "trace atLoopStart = preludeEvents" "forkRunning atLoopStart"
    "callTranscript atLoopStart = []"
    by (simp_all add: atLoopStart_def)
  have b: "trace (conversationLoop failedPrompt None) = preludeEvents @ ?t1 @
     [(ErrorLog, True), (SetCaptureEnabled False, True),
      (GenerateSpeech apologyLine ?v, True), (Play (js ''tts.mp3''), True),
      (CleanupLog, True), (EndSession, True), (ForkAudioStop, True),
      (SendTranscript 0 [], True), (DialogDestroy, True)]"
    unfolding conversationLoop_def Let_def tb
    by (simp add: voiceOf_None cb finallyBlock_trace [of failedPrompt, OF c] fields_addEvents
          tt ta)
  from a l b show ?thesis by simp
qed

text \<open>A timeout in the first turn of the silent world: the prompt is played and the loop goes on.\<close>

theorem timeout_is_caught_in_the_turn_witness:
  "0 < MAX_TURNS
   \<and> (WaitForUtterance, False) \<in> set (iteration silentWorld DEFAULT_VOICE_ID None (Suc 0) atLoopStart)
   \<and> drop 5 (iteration silentWorld DEFAULT_VOICE_ID None (Suc 0) atLoopStart) =
       [(GenerateSpeech noSpeechPrompt DEFAULT_VOICE_ID, True), (Play (js ''tts.mp3''), True)]
   \<and> turnLoop silentWorld DEFAULT_VOICE_ID None 0 atLoopStart =
       turnLoop silentWorld DEFAULT_VOICE_ID None (Suc 0)
         (snd (turn silentWorld DEFAULT_VOICE_ID None (Suc 0) atLoopStart))"
proof -
  let ?v = DEFAULT_VOICE_ID
  have k: "0 < MAX_TURNS" by (simp add: MAX_TURNS_def)
  have t: "turn silentWorld ?v None (Suc 0) atLoopStart =
      (Continue, addEvents (silentEvents ?v (Suc 0)) atLoopStart)"
    by (rule silent_turn [OF silentWorld_silent [of "now atLoopStart + 7"]]) simp
  have it: "iteration silentWorld ?v None (Suc 0) atLoopStart = silentEvents ?v (Suc 0)"
    by (simp add: iteration_def t now_def fields_addEvents)
  have h: "(WaitForUtterance, False) \<in> set (iteration silentWorld ?v None (Suc 0) atLoopStart)"
    unfolding it by (simp add: silentEvents_def)
  have d: "drop 5 (iteration silentWorld ?v None (Suc 0) atLoopStart) =
      [(GenerateSpeech noSpeechPrompt ?v, True), (Play (js ''tts.mp3''), True)]"
    unfolding it by (simp add: silentEvents_def)
  from timeout_is_caught_in_the_turn [OF k h]
  have "turnLoop silentWorld ?v None 0 atLoopStart =
       turnLoop silentWorld ?v None (Suc 0) (snd (turn silentWorld ?v None (Suc 0) atLoopStart))"
    unfolding d by auto
  with k h d show ?thesis by simp
qed


section \<open>The token fallback of voice-line extraction\<close>

lemma tokensSpec_dropWhile: "tokensSpec (dropWhile isWhiteSpace s) = tokensSpec s"
  by (simp add: tokensSpec.simps [of s] tokensSpec.simps [of "dropWhile isWhiteSpace s"])

lemma tokensSpec_blank: "\<forall>c \<in> set s. isWhiteSpace c \<Longrightarrow> tokensSpec s = []"
  by (simp add: tokensSpec.simps [of s])

lemma tokensSpec_token:
  assumes "a \<noteq> []" "\<forall>c \<in> set a. \<not> isWhiteSpace c" "r = [] \<or> isWhiteSpace (hd r)"
  shows "tokensSpec (a @ r) = a # tokensSpec r"
proof -
  from assms(1) obtain c a' where a: "a = c # a'" by (cases a) auto
  have d: "dropWhile isWhiteSpace (a @ r) = a @ r" using a assms(2) by simp
  have tr: "takeWhile (\<lambda>c. \<not> isWhiteSpace c) r = []" "dropWhile (\<lambda>c. \<not> isWhiteSpace c) r = r"
    using assms(3) by (cases r; simp)+
  have t: "takeWhile (\<lambda>c. \<not> isWhiteSpace c) (a @ r) = a"
    using assms(2) tr by (simp add: takeWhile_append2)
  have dr: "dropWhile (\<lambda>c. \<not> isWhiteSpace c) (a @ r) = r"
    using assms(2) tr by (simp add: dropWhile_append2)
  show ?thesis
    by (simp add: tokensSpec.simps [of "a @ r"] d t dr Let_def assms(1))
qed

text \<open>A text that starts with a non-blank is a token followed by nothing or by a blank.\<close>

lemma first_token:
  assumes "u \<noteq> []" "\<not> isWhiteSpace (hd u)"
  obtains a r where "u = a @ r" "a \<noteq> []" "\<forall>c \<in> set a. \<not> isWhiteSpace c"
    "r = [] \<or> isWhiteSpace (hd r)" "length r < length u"
proof
  let ?a = "takeWhile (\<lambda>c. \<not> isWhiteSpace c) u"
  let ?r = "dropWhile (\<lambda>c. \<not> isWhiteSpace c) u"
  show "u = ?a @ ?r" by simp
  show a: "?a \<noteq> []" using assms by (cases u) auto
  show "\<forall>c \<in> set ?a. \<not> isWhiteSpace c" by (auto dest: set_takeWhileD)
  show "?r = [] \<or> isWhiteSpace (hd ?r)" using hd_dropWhile [of "\<lambda>c. \<not> isWhiteSpace c" u] by auto
  have "length ?a + length ?r = length u" by (metis length_append takeWhile_dropWhile_id)
  with a show "length ?r < length u" by (cases ?a) auto
qed

lemma tokensSpec_trailing_blanks:
  "\<forall>c \<in> set w. isWhiteSpace c \<Longrightarrow> tokensSpec (x @ w) = tokensSpec x"
proof (induction x rule: length_induct)
  case (1 x)
  let ?t = "dropWhile isWhiteSpace x"
  show ?case
  proof (cases "?t = []")
    case True
    then have b: "\<forall>c \<in> set x. isWhiteSpace c" by (simp add: dropWhile_eq_Nil_conv)
    with "1.prems" have "\<forall>c \<in> set (x @ w). isWhiteSpace c" by auto
    then have "tokensSpec (x @ w) = []" by (rule tokensSpec_blank)
    moreover from b have "tokensSpec x = []" by (rule tokensSpec_blank)
    ultimately show ?thesis by simp
  next
    case False
    then obtain y where y: "y \<in> set x" "\<not> isWhiteSpace y"
      by (auto simp: dropWhile_eq_Nil_conv)
    have dw: "dropWhile isWhiteSpace (x @ w) = ?t @ w"
      using y by (rule dropWhile_append1)
    have hd: "\<not> isWhiteSpace (hd ?t)" using False by (rule hd_dropWhile)
    from False hd obtain a r where
      ar: "?t = a @ r" "a \<noteq> []" "\<forall>c \<in> set a. \<not> isWhiteSpace c"
        "r = [] \<or> isWhiteSpace (hd r)" "length r < length ?t"
      by (rule first_token)
    have "length r < length x"
      using ar(5) length_dropWhile_le [of isWhiteSpace x] by simp
    with "1.IH" "1.prems" have ih: "tokensSpec (r @ w) = tokensSpec r" by blast
    have rw: "r @ w = [] \<or> isWhiteSpace (hd (r @ w))"
      using ar(4) "1.prems" by (cases r; cases w; simp)
    have "tokensSpec (x @ w) = tokensSpec (?t @ w)"
      using tokensSpec_dropWhile [of "x @ w"] dw by simp
    also have "\<dots> = a # tokensSpec (r @ w)"
      using tokensSpec_token [OF ar(2) ar(3) rw] ar(1) by simp
    also have "\<dots> = a # tokensSpec r" using ih by simp
    also have "\<dots> = tokensSpec ?t"
      using tokensSpec_token [OF ar(2) ar(3) ar(4)] ar(1) by simp
    also have "\<dots> = tokensSpec x" by (rule tokensSpec_dropWhile)
    finally show ?thesis .
  qed
qed

lemma tokensSpec_trim: "tokensSpec (trim s) = tokensSpec s"
proof -
  let ?t = "dropWhile isWhiteSpace s"
  let ?w = "rev (takeWhile isWhiteSpace (rev ?t))"
  have t: "?t = trim s @ ?w"
    unfolding trim_def by (metis rev_append rev_rev_ident takeWhile_dropWhile_id)
  have "\<forall>c \<in> set ?w. isWhiteSpace c" by (auto dest: set_takeWhileD)
  then have "tokensSpec (trim s @ ?w) = tokensSpec (trim s)" by (rule tokensSpec_trailing_blanks)
  with t have "tokensSpec ?t = tokensSpec (trim s)" by simp
  then show ?thesis by (simp add: tokensSpec_dropWhile)
qed

lemma tight_trim: "tight (trim s)"
proof -
  let ?t = "dropWhile isWhiteSpace s"
  let ?v = "dropWhile isWhiteSpace (rev ?t)"
  show ?thesis
  proof (cases "?v = []")
    case True
    then show ?thesis by (simp add: tight_def trim_def)
  next
    case False
    then have h: "\<not> isWhiteSpace (hd ?v)" by (rule hd_dropWhile)
    from False have tn: "?t \<noteq> []" by (cases "dropWhile isWhiteSpace s = []") simp_all
    then have ht: "\<not> isWhiteSpace (hd ?t)" by (rule hd_dropWhile)
    have "last ?v = last (rev ?t)"
      using False by (metis last_appendR takeWhile_dropWhile_id)
    then have "last ?v = hd ?t" using tn by (simp add: last_rev)
    then have "\<not> isWhiteSpace (hd (trim s))"
      using ht False by (simp add: trim_def hd_rev)
    moreover have "\<not> isWhiteSpace (last (trim s))"
      using h False by (simp add: trim_def last_rev)
    ultimately show ?thesis by (simp add: tight_def)
  qed
qed

lemma splitBlank_nonempty: "splitBlank s \<noteq> []"
  by (induction s rule: splitBlank.induct) (auto simp: consFirst_def split: list.splits)

lemma splitBlank_token: "\<forall>c \<in> set a. \<not> isWhiteSpace c \<Longrightarrow> splitBlank a = [a]"
  by (induction a) (simp_all add: consFirst_def)

lemma splitBlank_token_blank:
  "\<forall>c \<in> set a. \<not> isWhiteSpace c \<Longrightarrow> isWhiteSpace d \<Longrightarrow>
     splitBlank (a @ d # ds) = a # splitBlank (dropWhile isWhiteSpace ds)"
  by (induction a) (simp_all add: consFirst_def)

lemma splitBlank_tight: "tight u \<Longrightarrow> u \<noteq> [] \<Longrightarrow> splitBlank u = tokensSpec u"
proof (induction u rule: length_induct)
  case (1 u)
  from "1.prems" have hu: "\<not> isWhiteSpace (hd u)" and lu: "\<not> isWhiteSpace (last u)"
    by (simp_all add: tight_def)
  from "1.prems"(2) hu obtain a r where
    ar: "u = a @ r" "a \<noteq> []" "\<forall>c \<in> set a. \<not> isWhiteSpace c"
      "r = [] \<or> isWhiteSpace (hd r)" "length r < length u"
    by (rule first_token)
  show ?case
  proof (cases r)
    case Nil
    with ar show ?thesis
      using tokensSpec_token [OF ar(2) ar(3), of "[]"] splitBlank_token [OF ar(3)]
      by (simp add: tokensSpec_blank)
  next
    case (Cons d ds)
    with ar(4) have d: "isWhiteSpace d" by simp
    let ?r' = "dropWhile isWhiteSpace ds"
    have lr: "last r = last u" using ar(1) Cons by simp
    have "\<exists>y \<in> set ds. \<not> isWhiteSpace y"
    proof (cases ds)
      case Nil
      with Cons lr lu d show ?thesis by simp
    next
      case (Cons e es)
      then have "last ds \<in> set ds" by simp
      moreover have "last ds = last u" using lr \<open>r = d # ds\<close> Cons by simp
      ultimately show ?thesis using lu by metis
    qed
    then have ne: "?r' \<noteq> []" by (auto simp: dropWhile_eq_Nil_conv)
    then have h: "\<not> isWhiteSpace (hd ?r')" by (rule hd_dropWhile)
    have "ds \<noteq> []" using ne by auto
    then have "last ?r' = last ds"
      using ne by (metis last_appendR takeWhile_dropWhile_id)
    also have "\<dots> = last u" using lr Cons \<open>ds \<noteq> []\<close> by simp
    finally have tr: "tight ?r'" using h lu by (simp add: tight_def)
    have "length ?r' < length u"
      using ar(5) Cons length_dropWhile_le [of isWhiteSpace ds] by simp
    with "1.IH" tr ne have ih: "splitBlank ?r' = tokensSpec ?r'" by blast
    have "splitBlank u = a # splitBlank ?r'"
      using splitBlank_token_blank [OF ar(3) d] ar(1) Cons by simp
    also have "\<dots> = a # tokensSpec ?r'" using ih by simp
    also have "tokensSpec ?r' = tokensSpec r"
      using tokensSpec_dropWhile [of r] Cons d by simp
    also have "a # tokensSpec r = tokensSpec u"
      using tokensSpec_token [OF ar(2) ar(3) ar(4)] ar(1) by simp
    finally show ?thesis .
  qed
qed

lemma splitBlank_trim:
  "splitBlank (trim s) = (if tokensSpec s = [] then [[]] else tokensSpec s)"
proof (cases "trim s = []")
  case True
  then have "tokensSpec s = []"
    using tokensSpec_trim [of s] by (simp add: tokensSpec.simps [of "[]"])
  with True show ?thesis by simp
next
  case False
  have "splitBlank (trim s) = tokensSpec (trim s)"
    using tight_trim False by (rule splitBlank_tight)
  moreover have "tokensSpec (trim s) \<noteq> []"
    using calculation splitBlank_nonempty [of "trim s"] by simp
  ultimately show ?thesis by (simp add: tokensSpec_trim)
qed

text \<open>
  When no marked line yields an accepted value, the code returns the first at most 120
  tokens of the text without its markup characters, joined by single blanks; without a
  token that is the empty text.
\<close>

lemma extractVoiceLine_tokens:
  assumes "voiceResponse response = None" "customCompleted response = None"
    "completed response = None"
  shows "extractVoiceLine response =
           join (take 120 (tokensSpec (stripMarkup response))) (js '' '')"
proof -
  let ?m = "stripMarkup response"
  have ne: "length (take 120 (splitBlank (trim ?m))) > 0"
    using splitBlank_nonempty [of "trim ?m"] by (cases "splitBlank (trim ?m)") simp_all
  have "join (take 120 (splitBlank (trim ?m))) (js '' '') =
        join (take 120 (tokensSpec ?m)) (js '' '')"
    by (simp add: splitBlank_trim)
  with ne assms show ?thesis by (simp add: extractVoiceLine_def Let_def)
qed

lemma extractVoiceLine_plainAnswer:
  "voiceResponse plainAnswer = None \<and> customCompleted plainAnswer = None
   \<and> completed plainAnswer = None \<and> extractVoiceLine plainAnswer = js ''Hello world x foo''"
proof -
  have h1: "voiceResponse plainAnswer = None" by code_simp
  have h2: "customCompleted plainAnswer = None" by code_simp
  have h3: "completed plainAnswer = None" by code_simp
  have t: "join (take 120 (tokensSpec (stripMarkup plainAnswer))) (js '' '') =
      js ''Hello world x foo''"
    by code_simp
  from extractVoiceLine_tokens [OF h1 h2 h3]
  have "extractVoiceLine plainAnswer = js ''Hello world x foo''"
    unfolding t .
  with h1 h2 h3 show ?thesis by (intro conjI)
qed

text \<open>
  So the code and the specification agree on every text that has a token, and on a text
  without one exactly when its first 500 characters are blank.
\<close>

lemma extractVoiceLine_fallbackSpec:
  assumes "voiceResponse response = None" "customCompleted response = None"
    "completed response = None"
  shows "(extractVoiceLine response = fallbackSpec response) =
           (tokensSpec (stripMarkup response) \<noteq> [] \<or> trim (take 500 response) = [])"
proof (cases "tokensSpec (stripMarkup response) = []")
  case True
  with extractVoiceLine_tokens [OF assms] have "extractVoiceLine response = []" by simp
  moreover from True have "fallbackSpec response = trim (take 500 response)"
    by (simp add: fallbackSpec_def)
  ultimately show ?thesis using True by auto
next
  case False
  then have "take 120 (tokensSpec (stripMarkup response)) \<noteq> []" by simp
  then have "fallbackSpec response =
      join (take 120 (tokensSpec (stripMarkup response))) (js '' '')"
    by (simp add: fallbackSpec_def Let_def)
  with extractVoiceLine_tokens [OF assms] False show ?thesis by simp
qed

text \<open>
  C9.  The claim does not hold of the code.  The raw answer \<^verbatim>\<open>***\<close> has no marked
  line, and without its markup characters it has no token, so the claim asks for its
  first 500 characters, trimmed: \<^verbatim>\<open>***\<close>.  The code returns the empty text.
  \<^verbatim>\<open>split\<close> gives an array with one empty string for the empty text, never an
  empty array, so the test \<^verbatim>\<open>words.length > 0\<close> that guards the token result
  holds for every text, and the \<^verbatim>\<open>substring(0, 500)\<close> written after it is never
  reached.
\<close>

theorem extractVoiceLine_markup_only_is_empty:
  "voiceResponse markupOnly = None \<and> customCompleted markupOnly = None
   \<and> completed markupOnly = None
   \<and> tokensSpec (stripMarkup markupOnly) = []
   \<and> extractVoiceLine markupOnly = []
   \<and> fallbackSpec markupOnly = js ''***''"
proof (intro conjI)
  show "voiceResponse markupOnly = None" by code_simp
  show "customCompleted markupOnly = None" by code_simp
  show "completed markupOnly = None" by code_simp
  show "tokensSpec (stripMarkup markupOnly) = []" by code_simp
  show "extractVoiceLine markupOnly = []" by code_simp
  show "fallbackSpec markupOnly = js ''***''" by code_simp
qed



section \<open>A call with a question and a goodbye\<close>

text \<open>
  In the world \<open>chatWorld\<close> the caller asks for the time, is answered, and says goodbye
  in the second turn; every step of the cleanup fails.
\<close>

lemma chat_call:
  "trace (conversationLoop chatWorld None) =
     [(WebhookStart, True), (GenerateSpeech (greeting None) DEFAULT_VOICE_ID, True),
      (Play (js ''tts.mp3''), True), (ExpectSession, True), (ForkAudioStart, True),
      (AwaitSession, True),
      (TurnLog 1, True), (Play READY_BEEP_URL, True), (SetCaptureEnabled True, True),
      (WaitForUtterance, True), (SetCaptureEnabled False, True), (Play GOTIT_BEEP_URL, True),
      (Transcribe [1, 2, 3], True),
      (GenerateSpeech (js ''Ruminating...'') DEFAULT_VOICE_ID, True),
      (Play (js ''tts.mp3''), True), (PlayHoldMusic, True),
      (Query (js ''what time is it'') None, True), (UuidBreak, True),
      (GenerateSpeech (js ''It is noon.'') DEFAULT_VOICE_ID, True),
      (Play (js ''tts.mp3''), True),
      (TurnLog 2, True), (Play READY_BEEP_URL, True), (SetCaptureEnabled True, True),
      (WaitForUtterance, True), (SetCaptureEnabled False, True), (Play GOTIT_BEEP_URL, True),
      (Transcribe [1, 2, 3], True),
      (GenerateSpeech farewellLine DEFAULT_VOICE_ID, True), (Play (js ''tts.mp3''), True),
      (CleanupLog, True), (EndSession, False), (ForkAudioStop, False),
      (SendTranscript 4
         (js ''Caller: what time is it'' @ [0x0A] @ js ''Claude: It is noon.'' @ [0x0A] @
          js ''Caller: ok bye'' @ [0x0A] @ js ''Claude: Goodbye! Call again anytime.''), False),
      (DialogDestroy, False)]"
  by code_simp

theorem chat_call_capture_witness:
  "(Transcribe [1, 2, 3], True) \<in> set (trace (conversationLoop chatWorld None))
   \<and> captureSafe True (trace (conversationLoop chatWorld None))"
proof -
  have "(Transcribe [1, 2, 3], True) \<in> set (trace (conversationLoop chatWorld None))"
    unfolding chat_call by simp
  with capture_disabled_before_transcription [of True chatWorld None] show ?thesis by simp
qed

theorem chat_call_cleanup_witness:
  "drop 29 (trace (conversationLoop chatWorld None)) =
     [(CleanupLog, True), (EndSession, False), (ForkAudioStop, False),
      (SendTranscript 4
         (js ''Caller: what time is it'' @ [0x0A] @ js ''Claude: It is noon.'' @ [0x0A] @
          js ''Caller: ok bye'' @ [0x0A] @ js ''Claude: Goodbye! Call again anytime.''), False),
      (DialogDestroy, False)]
   \<and> filter isCleanup (map fst (trace (conversationLoop chatWorld None))) =
       cleanupActions (conversationLoop chatWorld None)
   \<and> forkRunning (conversationLoop chatWorld None)"
proof -
  have a: "drop 29 (trace (conversationLoop chatWorld None)) =
     [(CleanupLog, True), (EndSession, False), (ForkAudioStop, False),
      (SendTranscript 4
         (js ''Caller: what time is it'' @ [0x0A] @ js ''Claude: It is noon.'' @ [0x0A] @
          js ''Caller: ok bye'' @ [0x0A] @ js ''Claude: Goodbye! Call again anytime.''), False),
      (DialogDestroy, False)]"
    unfolding chat_call by simp
  have b: "(ForkAudioStart, True) \<in> set (trace (conversationLoop chatWorld None))"
    unfolding chat_call by simp
  from cleanup_runs_once_and_whole [of chatWorld None] a b show ?thesis by simp
qed

end
